theory Spec2Isabelle
  imports Main "HOL-Library.Char_ord" "HOL-Library.List_Lexorder" "HOL-Library.Monad_Syntax"
begin

section \<open>Strings: whitespace, trimming, searching\<close>

text \<open>
  The library is a template over the character type \<open>CharT\<close>; the model fixes
  \<open>CharT = char\<close>, so \<open>String\<close> is \<^typ>\<open>string\<close>. \<open>parse\<close> trims with the
  classic "C" locale, whose \<open>std::isspace\<close> accepts the space and the five control
  characters \<open>\t \n \v \f \r\<close> (codes 9 to 13).
\<close>

definition isspace :: "char \<Rightarrow> bool" where
  "isspace ch \<longleftrightarrow>
     ch = CHR '' '' \<or> ch = CHR 0x09 \<or> ch = CHR 0x0A \<or> ch = CHR 0x0B \<or> ch = CHR 0x0C \<or> ch = CHR 0x0D"

text \<open>\<open>detail::ltrim\<close>: erase from the beginning up to the first non-space character.\<close>

definition ltrim :: "string \<Rightarrow> string" where
  "ltrim s = dropWhile isspace s"

text \<open>\<open>detail::rtrim\<close>: erase from just after the last non-space character to the end.\<close>

definition rtrim :: "string \<Rightarrow> string" where
  "rtrim s = rev (dropWhile isspace (rev s))"

text \<open>
  \<open>str.find(from, start_pos)\<close>: the lowest position \<open>p \<ge> start_pos\<close> at which \<open>from\<close>
  occurs in \<open>str\<close>, \<open>None\<close> for \<open>npos\<close>. A start beyond the end finds nothing; the
  empty pattern is found at every position up to and including the end.
\<close>

fun starts_with :: "'a list \<Rightarrow> 'a list \<Rightarrow> bool" where
  "starts_with [] s = True"
| "starts_with (p # ps) [] = False"
| "starts_with (p # ps) (c # cs) = (p = c \<and> starts_with ps cs)"

fun find_first :: "'a list \<Rightarrow> 'a list \<Rightarrow> nat option" where
  "find_first pat [] = (if pat = [] then Some 0 else None)"
| "find_first pat (c # cs) =
     (if starts_with pat (c # cs) then Some 0 else map_option Suc (find_first pat cs))"

definition find_str :: "string \<Rightarrow> string \<Rightarrow> nat \<Rightarrow> nat option" where
  "find_str str pat start_pos =
     (if length str < start_pos then None
      else map_option (\<lambda>i. start_pos + i) (find_first pat (drop start_pos str)))"

text \<open>\<open>line.find_first_of(char_assign)\<close>: the position of the first occurrence of a character.\<close>

fun find_first_of :: "string \<Rightarrow> char \<Rightarrow> nat option" where
  "find_first_of [] ch = None"
| "find_first_of (c # cs) ch = (if c = ch then Some 0 else map_option Suc (find_first_of cs ch))"

text \<open>\<open>s.substr(pos, n)\<close> for \<open>pos \<le> s.length()\<close>, the only way the library calls it.\<close>

definition substr :: "string \<Rightarrow> nat \<Rightarrow> nat \<Rightarrow> string" where
  "substr s pos n = take n (drop pos s)"

section \<open>String replacement\<close>

text \<open>
  \<open>detail::replace\<close> is a \<open>while\<close> loop over \<open>(str, start_pos, changed)\<close>. With an
  empty \<open>from\<close> the C++ loop never ends, so the loop is a partial function into
  \<open>option\<close>: \<open>None\<close> is "does not return". The result is the new string with the
  \<open>changed\<close> flag.
\<close>

partial_function (option) replace_loop ::
  "string \<Rightarrow> string \<Rightarrow> string \<Rightarrow> nat \<Rightarrow> bool \<Rightarrow> (string \<times> bool) option" where
  "replace_loop from to str start_pos changed =
     (case find_str str from start_pos of
        None \<Rightarrow> Some (str, changed)
      | Some p \<Rightarrow>
          replace_loop from to (take p str @ to @ drop (p + length from) str) (p + length to) True)"

declare replace_loop.simps [code]

definition replace :: "string \<Rightarrow> string \<Rightarrow> string \<Rightarrow> (string \<times> bool) option" where
  "replace str from to = replace_loop from to str 0 False"

text \<open>
  The same replacement as a total function on the not yet scanned rest of the string:
  copy up to the first occurrence, put \<open>to\<close>, and go on behind the occurrence in the
  original text. It is only meant for a non-empty pattern, where the rest gets shorter.
\<close>

lemma find_first_bound: "find_first pat s = Some p \<Longrightarrow> p + length pat \<le> length s"
proof (induction s arbitrary: p)
  case Nil
  then show ?case by (simp split: if_splits)
next
  case (Cons c cs)
  have sw: "starts_with q t \<Longrightarrow> length q \<le> length t" for q t :: "'a list"
    by (induction q t rule: starts_with.induct) auto
  from Cons show ?case
    by (auto split: if_splits dest: sw)
qed

function subst :: "string \<Rightarrow> string \<Rightarrow> string \<Rightarrow> string \<times> bool" where
  "subst from to s =
     (if from = [] then (s, False)
      else case find_first from s of
             None \<Rightarrow> (s, False)
           | Some p \<Rightarrow> (take p s @ to @ fst (subst from to (drop (p + length from) s)), True))"
  by pat_completeness auto
termination
proof (relation "measure (\<lambda>(from, to, s). length s)")
  show "wf (measure (\<lambda>(from, to, s). length s))" by simp
next
  fix "from" to s :: string and p
  assume "from \<noteq> []" and "find_first from s = Some p"
  then have "p + length from \<le> length s" and "0 < length from"
    by (auto dest: find_first_bound)
  then have "length s - (p + length from) < length s"
    by linarith
  then show "((from, to, drop (p + length from) s), from, to, s) \<in> measure (\<lambda>(from, to, s). length s)"
    by simp
qed

declare subst.simps [simp del]

section \<open>Typed extraction\<close>

text \<open>
  \<open>extract\<close> (here \<open>extract_as\<close>) reads the value through a string stream: \<open>is >> std::boolalpha >> result\<close>
  is the standard library's formatted input for the target type \<open>T\<close>, which is not part
  of this library; it is the parameter \<open>scan\<close>, giving the parsed result and the unread
  rest of the stream, or \<open>None\<close> when the stream fails. The following \<open>is >> c\<close>
  skips whitespace and reads one character, so it fails exactly when only whitespace is
  left. The destination \<open>dst\<close> is passed in and returned next to the \<open>bool\<close> result.
\<close>

definition read_char :: "string \<Rightarrow> (char \<times> string) option" where
  "read_char s = (case dropWhile isspace s of [] \<Rightarrow> None | c # rest \<Rightarrow> Some (c, rest))"

definition extract_as :: "(string \<Rightarrow> ('t \<times> string) option) \<Rightarrow> string \<Rightarrow> 't \<Rightarrow> bool \<times> 't" where
  "extract_as scan value dst =
     (case scan value of
        Some (result, rest) \<Rightarrow> (if read_char rest = None then (True, result) else (False, dst))
      | None \<Rightarrow> (False, dst))"

text \<open>The overload for a string destination.\<close>

definition extract_string :: "string \<Rightarrow> string \<Rightarrow> bool \<times> string" where
  "extract_string value dst = (True, value)"

text \<open>
  Two instances of the formatted input. For \<open>T = char\<close> it is \<open>read_char\<close> itself. For
  \<open>T = int\<close> (32 bits, decimal, "C" locale) leading whitespace is skipped, an optional
  sign and the longest run of decimal digits are taken, and the stream fails when there
  is no digit or the number does not fit an \<open>int\<close>.
\<close>

definition is_digit :: "char \<Rightarrow> bool" where
  "is_digit c \<longleftrightarrow> CHR ''0'' \<le> c \<and> c \<le> CHR ''9''"

definition digit_val :: "char \<Rightarrow> int" where
  "digit_val c = int (of_char c) - 48"

definition scan_int :: "string \<Rightarrow> (int \<times> string) option" where
  "scan_int s =
     (let t = dropWhile isspace s;
          neg = (t \<noteq> [] \<and> hd t = CHR ''-'');
          u = (if t \<noteq> [] \<and> (hd t = CHR ''-'' \<or> hd t = CHR ''+'') then tl t else t);
          ds = takeWhile is_digit u;
          n = foldl (\<lambda>a c. 10 * a + digit_val c) 0 ds;
          v = (if neg then - n else n)
      in if ds = [] \<or> v < - (2 ^ 31) \<or> 2 ^ 31 - 1 < v then None
         else Some (v, dropWhile is_digit u))"

section \<open>The document model\<close>

text \<open>
  \<open>Section\<close> is \<open>std::map<String, String>\<close> and \<open>Sections\<close> is
  \<open>std::map<String, Section>\<close>: ordered maps with unique keys, iterated in ascending key
  order, where strings compare lexicographically by unsigned character code. A map is
  modelled by the list of its entries in iteration order; \<open>map_wf\<close> is the invariant
  of the container.
\<close>

type_synonym Section = "(string \<times> string) list"
type_synonym Sections = "(string \<times> Section) list"

definition map_wf :: "('k::linorder \<times> 'v) list \<Rightarrow> bool" where
  "map_wf m \<longleftrightarrow> sorted_wrt (<) (map fst m)"

text \<open>
  \<open>m.insert(std::make_pair(k, v))\<close>: no effect when the key is there, else a new entry
  at its place in the key order.
\<close>

definition map_insert :: "'k::linorder \<Rightarrow> 'v \<Rightarrow> ('k \<times> 'v) list \<Rightarrow> ('k \<times> 'v) list" where
  "map_insert k v m = (case map_of m k of Some v' \<Rightarrow> m | None \<Rightarrow> insort_key fst (k, v) m)"

text \<open>Assignment through a reference to the mapped value of a key that is present.\<close>

fun map_put :: "'k \<Rightarrow> 'v \<Rightarrow> ('k \<times> 'v) list \<Rightarrow> ('k \<times> 'v) list" where
  "map_put k v [] = []"
| "map_put k v ((k', v') # m) = (if k = k' then (k', v) # m else (k', v') # map_put k v m)"

record Ini =
  sections :: Sections
  errors :: "string list"

definition char_section_start :: char where "char_section_start = CHR ''[''"
definition char_section_end :: char where "char_section_end = CHR '']''"
definition char_assign :: char where "char_assign = CHR ''=''"
definition char_comment :: char where "char_comment = CHR '';''"
definition char_interpol :: char where "char_interpol = CHR ''$''"
definition char_interpol_start :: char where "char_interpol_start = CHR ''{''"
definition char_interpol_sep :: char where "char_interpol_sep = CHR '':''"
definition char_interpol_end :: char where "char_interpol_end = CHR ''}''"

definition max_interpolation_depth :: nat where "max_interpolation_depth = 10"

definition empty_ini :: Ini where
  "empty_ini = \<lparr>sections = [], errors = []\<rparr>"

definition clear :: "Ini \<Rightarrow> Ini" where
  "clear ini = ini\<lparr>sections := [], errors := []\<rparr>"

text \<open>\<open>Ini::is_comment\<close>, the default of the virtual classifier.\<close>

definition is_comment :: "char \<Rightarrow> bool" where
  "is_comment ch \<longleftrightarrow> ch = char_comment"

section \<open>Serialization\<close>

text \<open>The output stream is the text written so far; \<open>std::endl\<close> writes a newline.\<close>

definition endl :: string where "endl = [CHR 0x0A]"

definition write_value :: "string \<Rightarrow> string \<times> string \<Rightarrow> string" where
  "write_value os val = os @ fst val @ [char_assign] @ snd val @ endl"

definition write_section :: "string \<Rightarrow> string \<times> Section \<Rightarrow> string" where
  "write_section os sec =
     foldl write_value (os @ [char_section_start] @ fst sec @ [char_section_end] @ endl) (snd sec) @ endl"

definition generate :: "Ini \<Rightarrow> string \<Rightarrow> string" where
  "generate ini os = foldl write_section os (sections ini)"

section \<open>Parsing\<close>

text \<open>
  \<open>std::getline\<close> in the loop condition: a line ends at a newline; at the end of the
  input a last line without newline is delivered when it is not empty.
\<close>

fun getlines_from :: "string \<Rightarrow> string \<Rightarrow> string list" where
  "getlines_from line [] = (if line = [] then [] else [line])"
| "getlines_from line (c # cs) =
     (if c = CHR 0x0A then line # getlines_from [] cs else getlines_from (line @ [c]) cs)"

definition getlines :: "string \<Rightarrow> string list" where
  "getlines input = getlines_from [] input"

text \<open>
  The body of the loop of \<open>parse\<close>, on the local variable \<open>section\<close> and the document.
  The classifier \<open>is_comment\<close> is virtual, so it is the parameter \<open>isc\<close>.
\<close>

definition parse_line :: "(char \<Rightarrow> bool) \<Rightarrow> string \<Rightarrow> string \<times> Ini \<Rightarrow> string \<times> Ini" where
  "parse_line isc raw st =
     (let section = fst st; ini = snd st;
          line = rtrim (ltrim raw);
          len = length line
      in if len > 0 then
           (let pos = find_first_of line char_assign;
                front = hd line
            in if isc front then (section, ini)
               else if front = char_section_start then
                 (if last line = char_section_end then (substr line 1 (len - 2), ini)
                  else (section, ini\<lparr>errors := errors ini @ [line]\<rparr>))
               else
                 (case pos of
                    None \<Rightarrow> (section, ini\<lparr>errors := errors ini @ [line]\<rparr>)
                  | Some p \<Rightarrow>
                      if p \<noteq> 0 then
                        (let variable = rtrim (substr line 0 p);
                             value = ltrim (substr line (p + 1) len);
                             secs = map_insert section [] (sections ini);
                             sec = (case map_of secs section of Some s \<Rightarrow> s | None \<Rightarrow> [])
                         in if map_of sec variable = None then
                              (section, ini\<lparr>sections := map_put section (map_insert variable value sec) secs\<rparr>)
                            else (section, ini\<lparr>sections := secs, errors := errors ini @ [line]\<rparr>))
                      else (section, ini\<lparr>errors := errors ini @ [line]\<rparr>)))
         else (section, ini))"

definition parse_lines :: "(char \<Rightarrow> bool) \<Rightarrow> string list \<Rightarrow> string \<times> Ini \<Rightarrow> string \<times> Ini" where
  "parse_lines isc ls st = foldl (\<lambda>st raw. parse_line isc raw st) st ls"

definition parse :: "(char \<Rightarrow> bool) \<Rightarrow> string \<Rightarrow> Ini \<Rightarrow> Ini" where
  "parse isc input ini = snd (parse_lines isc (getlines input) ([], ini))"

section \<open>Default section\<close>

definition default_section :: "Section \<Rightarrow> Ini \<Rightarrow> Ini" where
  "default_section sec ini =
     ini\<lparr>sections := map (\<lambda>sec2. (fst sec2, foldl (\<lambda>m val. map_insert (fst val) (snd val) m) (snd sec2) sec))
                         (sections ini)\<rparr>"

section \<open>Interpolation\<close>

type_synonym Symbols = "(string \<times> string) list"

definition local_symbol :: "string \<Rightarrow> string" where
  "local_symbol name = char_interpol # (char_interpol_start # name @ [char_interpol_end])"

definition global_symbol :: "string \<Rightarrow> string \<Rightarrow> string" where
  "global_symbol sec_name name = local_symbol (sec_name @ char_interpol_sep # name)"

definition local_symbols :: "string \<Rightarrow> Section \<Rightarrow> Symbols" where
  "local_symbols sec_name sec = map (\<lambda>val. (local_symbol (fst val), global_symbol sec_name (fst val))) sec"

definition global_symbols :: "Sections \<Rightarrow> Symbols" where
  "global_symbols secs =
     concat (map (\<lambda>sec. map (\<lambda>val. (global_symbol (fst sec) (fst val), snd val)) (snd sec)) secs)"

text \<open>
  \<open>replace_symbols\<close>: for every symbol, for every value of the section, replace in
  place and accumulate \<open>changed\<close> (\<open>|=\<close> always evaluates its right-hand side).
\<close>

fun replace_values :: "string \<times> string \<Rightarrow> Section \<Rightarrow> (Section \<times> bool) option" where
  "replace_values symb [] = Some ([], False)"
| "replace_values symb (val # sec) =
     do { (v, c1) \<leftarrow> replace (snd val) (fst symb) (snd symb);
          (sec', c2) \<leftarrow> replace_values symb sec;
          Some ((fst val, v) # sec', c1 \<or> c2) }"

fun replace_symbols :: "Symbols \<Rightarrow> Section \<Rightarrow> (Section \<times> bool) option" where
  "replace_symbols [] sec = Some (sec, False)"
| "replace_symbols (symb # syms) sec =
     do { (sec1, c1) \<leftarrow> replace_values symb sec;
          (sec2, c2) \<leftarrow> replace_symbols syms sec1;
          Some (sec2, c1 \<or> c2) }"

text \<open>The first loop of \<open>interpolate\<close>: each section against its own local symbols.\<close>

fun localize :: "Sections \<Rightarrow> Sections option" where
  "localize [] = Some []"
| "localize (sec # secs) =
     do { (s, c) \<leftarrow> replace_symbols (local_symbols (fst sec) (snd sec)) (snd sec);
          secs' \<leftarrow> localize secs;
          Some ((fst sec, s) # secs') }"

text \<open>The inner loop of the \<open>do\<close> body: every section against the same symbol table.\<close>

fun replace_all_sections :: "Symbols \<Rightarrow> Sections \<Rightarrow> (Sections \<times> bool) option" where
  "replace_all_sections syms [] = Some ([], False)"
| "replace_all_sections syms (sec # secs) =
     do { (s, c1) \<leftarrow> replace_symbols syms (snd sec);
          (secs', c2) \<leftarrow> replace_all_sections syms secs;
          Some ((fst sec, s) # secs', c1 \<or> c2) }"

definition global_pass :: "Sections \<Rightarrow> (Sections \<times> bool) option" where
  "global_pass secs = replace_all_sections (global_symbols secs) secs"

text \<open>
  The \<open>do ... while\<close> loop. \<open>global_iteration\<close> is the loop's counter, compared before
  its post-increment; \<open>passes\<close> is a ghost counter of the executions of the body, which
  the code does not have, returned with the result.
\<close>

function resolve_loop :: "Sections \<Rightarrow> nat \<Rightarrow> nat \<Rightarrow> (Sections \<times> nat) option" where
  "resolve_loop secs global_iteration passes =
     do { (secs', changed) \<leftarrow> global_pass secs;
          if changed \<and> max_interpolation_depth > global_iteration
          then resolve_loop secs' (global_iteration + 1) (passes + 1)
          else Some (secs', passes + 1) }"
  by pat_completeness auto
termination
  by (relation "measure (\<lambda>(secs, gi, n). max_interpolation_depth - gi)") auto

declare resolve_loop.simps [simp del]

definition interpolate_passes :: "Ini \<Rightarrow> (Ini \<times> nat) option" where
  "interpolate_passes ini =
     do { secs \<leftarrow> localize (sections ini);
          (secs', n) \<leftarrow> resolve_loop secs 0 0;
          Some (ini\<lparr>sections := secs'\<rparr>, n) }"

definition interpolate :: "Ini \<Rightarrow> Ini option" where
  "interpolate ini = map_option fst (interpolate_passes ini)"

section \<open>Reading the document\<close>

text \<open>\<open>sections[name][key]\<close> read with \<open>find\<close>: the value stored for a key of a section, if any.\<close>

definition value_of :: "Ini \<Rightarrow> string \<Rightarrow> string \<Rightarrow> string option" where
  "value_of ini name key = (case map_of (sections ini) name of None \<Rightarrow> None | Some sec \<Rightarrow> map_of sec key)"

text \<open>
  The variable and the value that \<open>parse\<close> takes from a line in its key-value branch:
  the trimmed line is not empty, is no comment, does not start with \<open>[\<close>, and its
  first \<open>=\<close> is not its first character. \<open>None\<close> for every other line.
\<close>

definition key_value :: "(char \<Rightarrow> bool) \<Rightarrow> string \<Rightarrow> (string \<times> string) option" where
  "key_value isc raw =
     (let line = rtrim (ltrim raw)
      in if line = [] \<or> isc (hd line) \<or> hd line = char_section_start then None
         else case find_first_of line char_assign of
                None \<Rightarrow> None
              | Some p \<Rightarrow>
                  if p = 0 then None
                  else Some (rtrim (substr line 0 p), ltrim (substr line (p + 1) (length line))))"

text \<open>
  The value that the first loop of \<open>interpolate\<close> leaves for an entry of a section: the
  old value, rewritten for each key of that section in turn (in key order), every
  occurrence of \<open>${key}\<close> becoming \<open>${name:key}\<close>.
\<close>

definition localize_value :: "string \<Rightarrow> string list \<Rightarrow> string \<Rightarrow> string" where
  "localize_value name keys v =
     fold (\<lambda>key v. fst (subst (local_symbol key) (global_symbol name key) v)) keys v"

text \<open>The invariant of the two levels of \<open>std::map\<close> in a document.\<close>

definition doc_wf :: "Ini \<Rightarrow> bool" where
  "doc_wf ini \<longleftrightarrow> map_wf (sections ini) \<and> (\<forall>sec \<in> set (sections ini). map_wf (snd sec))"

text \<open>The lines that \<open>generate\<close> writes for one section, and for a document.\<close>

definition section_lines :: "string \<times> Section \<Rightarrow> string list" where
  "section_lines sec =
     ([char_section_start] @ fst sec @ [char_section_end]) #
     map (\<lambda>val. fst val @ [char_assign] @ snd val) (snd sec) @ [[]]"

definition document_lines :: "Sections \<Rightarrow> string list" where
  "document_lines secs = concat (map section_lines secs)"

text \<open>
  What \<open>parse\<close> stores, seen from the serializer: a key is not empty, starts with a
  character that is no space, no comment mark and no \<open>[\<close>, ends with a character that is
  no space, and has no \<open>=\<close>; a value neither starts nor ends with a space; neither has a
  newline. In a document built by \<open>parse\<close> every entry is so, every section has an entry,
  and no section name has a newline.
\<close>

definition parsed_entry :: "(char \<Rightarrow> bool) \<Rightarrow> string \<times> string \<Rightarrow> bool" where
  "parsed_entry isc val \<longleftrightarrow>
     fst val \<noteq> [] \<and> \<not> isspace (hd (fst val)) \<and> \<not> isspace (last (fst val)) \<and>
     \<not> isc (hd (fst val)) \<and> hd (fst val) \<noteq> char_section_start \<and>
     char_assign \<notin> set (fst val) \<and> CHR 0x0A \<notin> set (fst val) \<and> CHR 0x0A \<notin> set (snd val) \<and>
     (snd val = [] \<or> (\<not> isspace (hd (snd val)) \<and> \<not> isspace (last (snd val))))"

definition parsed_doc :: "(char \<Rightarrow> bool) \<Rightarrow> Ini \<Rightarrow> bool" where
  "parsed_doc isc ini \<longleftrightarrow>
     doc_wf ini \<and>
     list_all (\<lambda>sec. CHR 0x0A \<notin> set (fst sec) \<and> snd sec \<noteq> [] \<and> list_all (parsed_entry isc) (snd sec))
       (sections ini)"

section \<open>Facts about replacement\<close>

lemma starts_with_iff: "starts_with pat s \<longleftrightarrow> length pat \<le> length s \<and> take (length pat) s = pat"
  by (induction pat s rule: starts_with.induct) auto

text \<open>\<open>find_first\<close> gives the lowest position at which the pattern stands, and \<open>None\<close> when it stands nowhere.\<close>

lemma find_first_lowest:
  "find_first pat s = Some p \<Longrightarrow>
   starts_with pat (drop p s) \<and> (\<forall>q < p. \<not> starts_with pat (drop q s))"
proof (induction s arbitrary: p)
  case Nil
  then show ?case by (simp split: if_splits)
next
  case (Cons c cs)
  show ?case
  proof (cases "starts_with pat (c # cs)")
    case True
    with Cons.prems show ?thesis by simp
  next
    case False
    with Cons.prems obtain p' where p': "find_first pat cs = Some p'" and p: "p = Suc p'"
      by auto
    from Cons.IH [OF p'] False p show ?thesis
      by (auto simp: less_Suc_eq_0_disj)
  qed
qed

lemma find_first_nowhere:
  "find_first pat s = None \<Longrightarrow> \<forall>q \<le> length s. \<not> starts_with pat (drop q s)"
proof (induction s)
  case Nil
  then show ?case by (cases pat) (simp_all split: if_splits)
next
  case (Cons c cs)
  from Cons.prems have no: "\<not> starts_with pat (c # cs)" and rest: "find_first pat cs = None"
    by (auto split: if_splits)
  from Cons.IH [OF rest] no show ?case
    by (auto simp: le_Suc_eq drop_Cons split: nat.splits)
qed

lemma find_str_append:
  "find_str (done @ rest) pat (length done) = map_option (\<lambda>i. length done + i) (find_first pat rest)"
  by (simp add: find_str_def)

lemma find_str_0: "find_str str pat 0 = find_first pat str"
  by (cases "find_first pat str") (simp_all add: find_str_def)

lemma replace_loop_shift:
  assumes "from \<noteq> []"
  shows "replace_loop from to (done @ rest) (length done) ch =
         map_option (\<lambda>(r, c). (done @ r, ch \<or> c)) (replace_loop from to rest 0 False)"
  using assms
proof (induction "length rest" arbitrary: rest "done" ch rule: less_induct)
  case less
  show ?case
  proof (cases "find_first from rest")
    case None
    then show ?thesis
      by (subst replace_loop.simps, subst (2) replace_loop.simps)
         (simp add: find_str_append find_str_def)
  next
    case (Some p)
    define rest' where "rest' = drop (p + length from) rest"
    have b: "p + length from \<le> length rest"
      using Some by (rule find_first_bound)
    with less.prems have shorter: "length rest' < length rest"
      by (cases "from") (simp_all add: rest'_def)
    from b less.prems have pl: "p < length rest"
      by (cases "from") simp_all
    have l: "replace_loop from to (done @ rest) (length done) ch =
             replace_loop from to ((done @ take p rest @ to) @ rest') (length (done @ take p rest @ to)) True"
      using pl by (subst replace_loop.simps) (simp add: find_str_append Some rest'_def min_def add.assoc)
    have r: "replace_loop from to rest 0 False =
             replace_loop from to ((take p rest @ to) @ rest') (length (take p rest @ to)) True"
      using pl by (subst replace_loop.simps) (simp add: find_str_def Some rest'_def min_def)
    show ?thesis
      unfolding l r
      by (simp only: less.hyps [OF shorter less.prems])
         (simp add: option.map_comp comp_def case_prod_unfold)
  qed
qed

text \<open>One round of the loop, seen from the start of the string.\<close>

lemma replace_unfold:
  assumes "from \<noteq> []"
  shows "replace str from to =
         (case find_first from str of
            None \<Rightarrow> Some (str, False)
          | Some p \<Rightarrow> map_option (\<lambda>(r, c). (take p str @ to @ r, True))
                        (replace (drop (p + length from) str) from to))"
proof (cases "find_first from str")
  case None
  then show ?thesis
    by (simp add: replace_def replace_loop.simps [of _ _ str] find_str_0)
next
  case (Some p)
  have "p + length from \<le> length str"
    using Some by (rule find_first_bound)
  with assms have pl: "p < length str"
    by (cases "from") simp_all
  have "replace str from to =
        replace_loop from to ((take p str @ to) @ drop (p + length from) str) (length (take p str @ to)) True"
    using pl by (simp add: replace_def replace_loop.simps [of _ _ str] find_str_0 Some min_def)
  also have "\<dots> = map_option (\<lambda>(r, c). ((take p str @ to) @ r, True \<or> c))
                      (replace_loop from to (drop (p + length from) str) 0 False)"
    using assms by (rule replace_loop_shift)
  finally show ?thesis
    by (simp add: Some replace_def)
qed

lemma replace_subst: "from \<noteq> [] \<Longrightarrow> replace str from to = Some (subst from to str)"
proof (induction "from" to str rule: subst.induct)
  case (1 "from" to s)
  show ?case
  proof (cases "find_first from s")
    case None
    with "1.prems" show ?thesis
      by (simp add: replace_unfold subst.simps [of "from" to s])
  next
    case (Some p)
    with "1.prems" "1.IH" show ?thesis
      by (simp add: replace_unfold [of "from" s] subst.simps [of "from" to s] case_prod_unfold)
  qed
qed

lemma subst_flag: "from \<noteq> [] \<Longrightarrow> snd (subst from to s) \<longleftrightarrow> find_first from s \<noteq> None"
  by (cases "find_first from s") (simp_all add: subst.simps [of "from" to s])

lemma subst_unchanged: "from \<noteq> [] \<Longrightarrow> \<not> snd (subst from to s) \<Longrightarrow> fst (subst from to s) = s"
  by (simp add: subst.simps [of "from" to s] split: option.splits)

lemma replace_values_total:
  "fst symb \<noteq> [] \<Longrightarrow> \<exists>r. replace_values symb sec = Some r"
proof (induction sec)
  case Nil
  show ?case by auto
next
  case (Cons val sec)
  then obtain r where "replace_values symb sec = Some r"
    by blast
  with Cons.prems show ?case
    by (cases r) (simp add: replace_subst case_prod_unfold)
qed

lemma replace_symbols_total:
  "\<forall>symb \<in> set syms. fst symb \<noteq> [] \<Longrightarrow> \<exists>r. replace_symbols syms sec = Some r"
proof (induction syms arbitrary: sec)
  case Nil
  show ?case by auto
next
  case (Cons symb syms)
  then obtain sec1 c1 where s1: "replace_values symb sec = Some (sec1, c1)"
    using replace_values_total [of symb sec] by auto
  from Cons obtain r where "replace_symbols syms sec1 = Some r"
    by fastforce
  with s1 show ?case
    by (cases r) simp
qed

text \<open>
  Claim C10. For a non-empty pattern \<open>from\<close>, \<open>detail::replace\<close> returns; its result is
  the text before the first occurrence of \<open>from\<close>, then \<open>to\<close>, then the result of the
  same replacement on the original text behind that occurrence, so the inserted text is
  never searched again, whatever \<open>to\<close> contains; it returns \<open>true\<close> exactly when
  \<open>from\<close> was found, that is when a replacement was made; and \<open>replace_symbols\<close>
  returns for every symbol table whose patterns are not empty.
\<close>

theorem replace_terminates_left_to_right:
  assumes "from \<noteq> []"
  shows "(\<exists>r. replace str from to = Some r) \<and>
         replace str from to =
           (case find_str str from 0 of
              None \<Rightarrow> Some (str, False)
            | Some p \<Rightarrow> map_option (\<lambda>(r, c). (take p str @ to @ r, True))
                          (replace (drop (p + length from) str) from to)) \<and>
         ((\<exists>r. replace str from to = Some (r, True)) \<longleftrightarrow> find_str str from 0 \<noteq> None) \<and>
         ((\<forall>symb \<in> set syms. fst symb \<noteq> []) \<longrightarrow> (\<exists>r. replace_symbols syms sec = Some r))"
proof (intro conjI)
  show "\<exists>r. replace str from to = Some r"
    using assms by (simp add: replace_subst)
  show "replace str from to =
           (case find_str str from 0 of
              None \<Rightarrow> Some (str, False)
            | Some p \<Rightarrow> map_option (\<lambda>(r, c). (take p str @ to @ r, True))
                          (replace (drop (p + length from) str) from to))"
    unfolding find_str_0 using assms by (rule replace_unfold)
  have "(\<exists>r. replace str from to = Some (r, True)) \<longleftrightarrow> snd (subst from to str)"
    using assms by (cases "subst from to str") (auto simp: replace_subst)
  then show "(\<exists>r. replace str from to = Some (r, True)) \<longleftrightarrow> find_str str from 0 \<noteq> None"
    using assms by (simp add: subst_flag find_str_0)
  show "(\<forall>symb \<in> set syms. fst symb \<noteq> []) \<longrightarrow> (\<exists>r. replace_symbols syms sec = Some r)"
    using replace_symbols_total [of syms sec] by blast
qed

text \<open>The pattern \<open>X\<close> replaced by \<open>XX\<close>, which contains it.\<close>

theorem replace_terminates_left_to_right_witness:
  "replace ''aXbXc'' ''X'' ''XX'' = Some (''aXXbXXc'', True) \<and>
   (\<exists>r. replace_symbols [(''X'', ''XX'')] [(''k'', ''aXbXc'')] = Some r)"
proof -
  have h: "''X'' \<noteq> []" by simp
  have s: "\<forall>symb \<in> set [(''X'', ''XX'')]. fst symb \<noteq> []" by simp
  have e: "replace ''aXbXc'' ''X'' ''XX'' = Some (''aXXbXXc'', True)" by code_simp
  from replace_terminates_left_to_right [OF h, of "''aXbXc''" "''XX''" "[(''X'', ''XX'')]" "[(''k'', ''aXbXc'')]"] s e
  show ?thesis by blast
qed

section \<open>Facts about the container model\<close>

lemma map_of_insort_key:
  "map_of m k = None \<Longrightarrow> map_of (insort_key fst (k, v) m) = (map_of m)(k \<mapsto> v)"
  by (induction m) (auto split: if_splits simp: fun_upd_twist)

lemma map_of_map_insert:
  "map_of (map_insert k v m) = (case map_of m k of Some v' \<Rightarrow> map_of m | None \<Rightarrow> (map_of m)(k \<mapsto> v))"
  by (simp add: map_insert_def map_of_insort_key split: option.splits)

lemma map_of_map_put:
  "map_of (map_put k v m) = (case map_of m k of Some v' \<Rightarrow> (map_of m)(k \<mapsto> v) | None \<Rightarrow> map_of m)"
  by (induction m) (auto split: option.splits)

lemma map_fst_map_put: "map fst (map_put k v m) = map fst m"
  by (induction m) auto

lemma map_insert_present: "map_of m k = Some v' \<Longrightarrow> map_insert k v m = m"
  by (simp add: map_insert_def)

section \<open>Facts about parsing one line\<close>

lemma parse_line_blank:
  "rtrim (ltrim raw) = [] \<Longrightarrow> parse_line isc raw st = st"
  by (simp add: parse_line_def)

lemma parse_line_comment:
  "rtrim (ltrim raw) \<noteq> [] \<Longrightarrow> isc (hd (rtrim (ltrim raw))) \<Longrightarrow> parse_line isc raw st = st"
  by (simp add: parse_line_def Let_def)

lemma parse_line_header:
  assumes "rtrim (ltrim raw) = line" and "line \<noteq> []" and "\<not> isc (hd line)"
    and "hd line = char_section_start"
  shows "parse_line isc raw (section, ini) =
         (if last line = char_section_end then (substr line 1 (length line - 2), ini)
          else (section, ini\<lparr>errors := errors ini @ [line]\<rparr>))"
  using assms by (simp add: parse_line_def Let_def)

lemma parse_line_no_assign:
  assumes "rtrim (ltrim raw) = line" and "line \<noteq> []" and "\<not> isc (hd line)"
    and "hd line \<noteq> char_section_start"
    and "find_first_of line char_assign = None \<or> find_first_of line char_assign = Some 0"
  shows "parse_line isc raw (section, ini) = (section, ini\<lparr>errors := errors ini @ [line]\<rparr>)"
  using assms by (auto simp add: parse_line_def Let_def)

lemma key_value_SomeD:
  assumes "key_value isc raw = Some (k, v)"
  obtains p where "rtrim (ltrim raw) \<noteq> []" and "\<not> isc (hd (rtrim (ltrim raw)))"
    and "hd (rtrim (ltrim raw)) \<noteq> char_section_start"
    and "find_first_of (rtrim (ltrim raw)) char_assign = Some p" and "p \<noteq> 0"
    and "k = rtrim (substr (rtrim (ltrim raw)) 0 p)"
    and "v = ltrim (substr (rtrim (ltrim raw)) (p + 1) (length (rtrim (ltrim raw))))"
proof -
  define line where "line = rtrim (ltrim raw)"
  from assms have a: "line \<noteq> []" "\<not> isc (hd line)" "hd line \<noteq> char_section_start"
    by (auto simp: key_value_def Let_def line_def split: if_splits)
  with assms obtain p where "find_first_of line char_assign = Some p" "p \<noteq> 0"
      "k = rtrim (substr line 0 p)" "v = ltrim (substr line (p + 1) (length line))"
    by (cases "find_first_of line char_assign")
       (auto simp: key_value_def Let_def line_def [symmetric] split: if_splits)
  with a that show thesis
    unfolding line_def by blast
qed

lemma parse_line_key_value:
  assumes "key_value isc raw = Some (k, v)"
  shows "parse_line isc raw (section, ini) =
         (let secs = map_insert section [] (sections ini);
              sec = (case map_of secs section of Some s \<Rightarrow> s | None \<Rightarrow> [])
          in if map_of sec k = None then
               (section, ini\<lparr>sections := map_put section (map_insert k v sec) secs\<rparr>)
             else (section, ini\<lparr>sections := secs, errors := errors ini @ [rtrim (ltrim raw)]\<rparr>))"
proof -
  from assms obtain p where "rtrim (ltrim raw) \<noteq> []" and "\<not> isc (hd (rtrim (ltrim raw)))"
    and "hd (rtrim (ltrim raw)) \<noteq> char_section_start"
    and "find_first_of (rtrim (ltrim raw)) char_assign = Some p" and "p \<noteq> 0"
    and "k = rtrim (substr (rtrim (ltrim raw)) 0 p)"
    and "v = ltrim (substr (rtrim (ltrim raw)) (p + 1) (length (rtrim (ltrim raw))))"
    by (rule key_value_SomeD)
  then show ?thesis
    by (simp add: parse_line_def Let_def)
qed

lemma key_value_cases:
  obtains (blank) "rtrim (ltrim raw) = []"
  | (comment) "rtrim (ltrim raw) \<noteq> []" "isc (hd (rtrim (ltrim raw)))"
  | (header) "rtrim (ltrim raw) \<noteq> []" "\<not> isc (hd (rtrim (ltrim raw)))" "hd (rtrim (ltrim raw)) = char_section_start"
  | (no_assign) "rtrim (ltrim raw) \<noteq> []" "\<not> isc (hd (rtrim (ltrim raw)))" "hd (rtrim (ltrim raw)) \<noteq> char_section_start"
      "find_first_of (rtrim (ltrim raw)) char_assign = None \<or> find_first_of (rtrim (ltrim raw)) char_assign = Some 0"
  | (key_value) k v where "key_value isc raw = Some (k, v)"
proof -
  define line where "line = rtrim (ltrim raw)"
  show thesis
  proof (cases "line = []")
    case True
    then show ?thesis using blank by (simp add: line_def)
  next
    case ne: False
    show ?thesis
    proof (cases "isc (hd line)")
      case True
      with ne show ?thesis using comment by (simp add: line_def)
    next
      case nc: False
      show ?thesis
      proof (cases "hd line = char_section_start")
        case True
        with ne nc show ?thesis using header by (simp add: line_def)
      next
        case nh: False
        show ?thesis
        proof (cases "find_first_of line char_assign")
          case None
          with ne nc nh show ?thesis using no_assign by (simp add: line_def)
        next
          case (Some p)
          show ?thesis
          proof (cases "p = 0")
            case True
            with Some ne nc nh show ?thesis using no_assign by (simp add: line_def)
          next
            case False
            with Some ne nc nh have "key_value isc raw =
                Some (rtrim (substr line 0 p), ltrim (substr line (p + 1) (length line)))"
              by (simp add: key_value_def Let_def line_def [symmetric])
            then show ?thesis by (rule key_value)
          qed
        qed
      qed
    qed
  qed
qed

text \<open>A key-value line on a key that is new in the current section stores the value.\<close>

lemma parse_line_new_key:
  assumes "key_value isc raw = Some (k, v)" and "value_of ini section k = None"
  shows "\<exists>ini'. parse_line isc raw (section, ini) = (section, ini') \<and> errors ini' = errors ini \<and>
           value_of ini' section k = Some v \<and>
           (\<forall>s x. (s, x) \<noteq> (section, k) \<longrightarrow> value_of ini' s x = value_of ini s x)"
  using assms
  by (auto simp: parse_line_key_value Let_def value_of_def map_of_map_insert map_of_map_put
           split: option.splits)

text \<open>A key-value line on a key that the current section has only goes to the error log.\<close>

lemma parse_line_old_key:
  assumes "key_value isc raw = Some (k, v)" and "value_of ini section k = Some v0"
  shows "parse_line isc raw (section, ini) = (section, ini\<lparr>errors := errors ini @ [rtrim (ltrim raw)]\<rparr>)"
  using assms
  by (auto simp: parse_line_key_value Let_def value_of_def map_insert_present
           split: option.splits)

section \<open>Facts about parsing a sequence of lines\<close>

lemma parse_lines_Nil: "parse_lines isc [] st = st"
  by (simp add: parse_lines_def)

lemma parse_lines_Cons: "parse_lines isc (raw # ls) st = parse_lines isc ls (parse_line isc raw st)"
  by (simp add: parse_lines_def)

lemma parse_lines_append: "parse_lines isc (ls @ ls') st = parse_lines isc ls' (parse_lines isc ls st)"
  by (simp add: parse_lines_def)

lemma value_of_errors_update: "value_of (ini\<lparr>errors := e\<rparr>) = value_of ini"
  by (simp add: value_of_def fun_eq_iff)

text \<open>No line changes a value that is stored, and no line takes a line out of the error log.\<close>

lemma parse_line_keeps:
  assumes "value_of (snd st) s x = Some w"
  shows "value_of (snd (parse_line isc raw st)) s x = Some w"
proof -
  obtain sect ini where st: "st = (sect, ini)"
    by (cases st)
  show ?thesis
  proof (cases rule: key_value_cases [where raw = raw and isc = isc])
    case blank
    with assms show ?thesis by (simp add: parse_line_blank)
  next
    case comment
    with assms show ?thesis by (simp add: parse_line_comment)
  next
    case header
    with assms show ?thesis
      unfolding st by (simp add: parse_line_header [OF refl] value_of_errors_update)
  next
    case no_assign
    with assms show ?thesis
      unfolding st by (simp add: parse_line_no_assign [OF refl] value_of_errors_update)
  next
    case (key_value k v)
    show ?thesis
    proof (cases "value_of ini sect k")
      case None
      with assms st have "(s, x) \<noteq> (sect, k)"
        by auto
      with parse_line_new_key [OF key_value None, of ] assms st show ?thesis
        by auto
    next
      case (Some v0)
      with assms st show ?thesis
        by (simp add: parse_line_old_key [OF key_value Some] value_of_errors_update)
    qed
  qed
qed

lemma parse_lines_keeps:
  "value_of (snd st) s x = Some w \<Longrightarrow> value_of (snd (parse_lines isc ls st)) s x = Some w"
  by (induction ls arbitrary: st) (simp_all add: parse_lines_Nil parse_lines_Cons parse_line_keeps)

lemma parse_line_errors:
  "\<exists>new. errors (snd (parse_line isc raw st)) = errors (snd st) @ new"
proof -
  obtain sect ini where st: "st = (sect, ini)"
    by (cases st)
  show ?thesis
  proof (cases rule: key_value_cases [where raw = raw and isc = isc])
    case blank
    then show ?thesis by (simp add: parse_line_blank)
  next
    case comment
    then show ?thesis by (simp add: parse_line_comment)
  next
    case header
    then show ?thesis
      unfolding st by (simp add: parse_line_header [OF refl])
  next
    case no_assign
    then show ?thesis
      unfolding st by (simp add: parse_line_no_assign [OF refl])
  next
    case (key_value k v)
    show ?thesis
    proof (cases "value_of ini sect k")
      case None
      with parse_line_new_key [OF key_value None] st show ?thesis
        by auto
    next
      case (Some v0)
      with st show ?thesis
        by (simp add: parse_line_old_key [OF key_value Some])
    qed
  qed
qed

lemma parse_lines_errors:
  "\<exists>new. errors (snd (parse_lines isc ls st)) = errors (snd st) @ new"
proof (induction ls arbitrary: st)
  case Nil
  show ?case by (simp add: parse_lines_Nil)
next
  case (Cons raw ls)
  from Cons [of "parse_line isc raw st"] parse_line_errors [of isc raw st]
  show ?case
    by (auto simp: parse_lines_Cons)
qed

lemma bracketed:
  assumes "line \<noteq> []" and "hd line = a" and "last line = b" and "a \<noteq> b"
  shows "line = a # substr line 1 (length line - 2) @ [b]"
proof -
  from assms obtain t where t: "line = a # t"
    by (cases line) auto
  with assms have "t \<noteq> []" and "last t = b"
    by (auto split: if_splits)
  then have "t = butlast t @ [b]"
    using append_butlast_last_id [of t] by simp
  moreover have "substr line 1 (length line - 2) = butlast t"
    using t by (simp add: substr_def butlast_conv_take)
  ultimately show ?thesis
    using t by simp
qed

text \<open>
  Claim C4. A line whose trimmed text is not empty, is no comment, starts with \<open>[\<close> and
  does not end with \<open>]\<close> is appended (trimmed) to the error log; the current section
  and the sections of the document stay as they are; and the lines after it are parsed
  from that state as usual.
\<close>

theorem malformed_header_logged:
  assumes "rtrim (ltrim raw) = line" and "line \<noteq> []" and "\<not> isc (hd line)"
    and "hd line = char_section_start" and "last line \<noteq> char_section_end"
  shows "parse_line isc raw (section, ini) = (section, ini\<lparr>errors := errors ini @ [line]\<rparr>) \<and>
         parse_lines isc (before @ raw # after) st =
           parse_lines isc after
             (fst (parse_lines isc before st),
              (snd (parse_lines isc before st))
                \<lparr>errors := errors (snd (parse_lines isc before st)) @ [line]\<rparr>)"
proof -
  have step: "parse_line isc raw (s, i) = (s, i\<lparr>errors := errors i @ [line]\<rparr>)" for s i
    using assms by (simp add: parse_line_header)
  show ?thesis
    using step [of "fst (parse_lines isc before st)" "snd (parse_lines isc before st)"]
    by (simp add: step parse_lines_append parse_lines_Cons)
qed

theorem malformed_header_logged_witness:
  "parse_lines is_comment [''x=1'', '' [section '', ''y=2''] ([], empty_ini) =
     ([], \<lparr>sections = [([], [(''x'', ''1''), (''y'', ''2'')])], errors = [''[section'']\<rparr>)"
proof -
  have a: "rtrim (ltrim '' [section '') = ''[section''" by code_simp
  have b: "''[section'' \<noteq> []" by simp
  have c: "\<not> is_comment (hd ''[section'')" by code_simp
  have d: "hd ''[section'' = char_section_start" by code_simp
  have e: "last ''[section'' \<noteq> char_section_end" by code_simp
  have f: "parse_lines is_comment [''x=1''] ([], empty_ini) =
             ([], \<lparr>sections = [([], [(''x'', ''1'')])], errors = []\<rparr>)" by code_simp
  have g: "parse_lines is_comment [''y=2''] ([], \<lparr>sections = [([], [(''x'', ''1'')])], errors = [''[section'']\<rparr>) =
             ([], \<lparr>sections = [([], [(''x'', ''1''), (''y'', ''2'')])], errors = [''[section'']\<rparr>)" by code_simp
  from malformed_header_logged [of "'' [section ''" "''[section''" is_comment "[]" empty_ini
      "[''x=1'']" "[''y=2'']" "([], empty_ini)", OF a b c d e]
  show ?thesis
    by (simp add: f g)
qed

text \<open>
  Claim C1, as the code has it. A line whose trimmed text starts with \<open>[\<close> and ends with
  \<open>]\<close> (and is no comment for the classifier in use; the default one only takes
  \<open>;\<close>) makes the text between the brackets, possibly empty, the current section
  name, and changes neither the document nor the error log: no Section entry is made
  for the header. The entry is there as soon as a key-value line has been parsed under
  that header.
\<close>

theorem section_header_sets_name:
  assumes "rtrim (ltrim raw) = line" and "line \<noteq> []" and "\<not> isc (hd line)"
    and "hd line = char_section_start" and "last line = char_section_end"
  shows "\<exists>name. line = char_section_start # name @ [char_section_end] \<and>
           parse_line isc raw (section, ini) = (name, ini) \<and>
           (\<forall>raw' k v. key_value isc raw' = Some (k, v) \<longrightarrow>
              map_of (sections (snd (parse_line isc raw' (name, ini)))) name \<noteq> None)"
proof (intro exI conjI allI impI)
  show "line = char_section_start # substr line 1 (length line - 2) @ [char_section_end]"
    using assms by (intro bracketed) (simp_all add: char_section_start_def char_section_end_def)
  show "parse_line isc raw (section, ini) = (substr line 1 (length line - 2), ini)"
    using assms by (simp add: parse_line_header)
next
  fix raw' k v
  assume kv: "key_value isc raw' = Some (k, v)"
  define name where "name = substr line 1 (length line - 2)"
  have "value_of (snd (parse_line isc raw' (name, ini))) name k \<noteq> None"
  proof (cases "value_of ini name k")
    case None
    from parse_line_new_key [OF kv None] show ?thesis by auto
  next
    case (Some v0)
    then show ?thesis
      by (simp add: parse_line_old_key [OF kv Some] value_of_errors_update)
  qed
  then show "map_of (sections (snd (parse_line isc raw' (substr line 1 (length line - 2), ini))))
               (substr line 1 (length line - 2)) \<noteq> None"
    by (auto simp: value_of_def name_def split: option.splits)
qed

theorem section_header_sets_name_witness:
  "parse_line is_comment '' [a] '' ([], empty_ini) = (''a'', empty_ini) \<and>
   map_of (sections (snd (parse_line is_comment ''k=v'' (''a'', empty_ini)))) ''a'' \<noteq> None"
proof -
  have a: "rtrim (ltrim '' [a] '') = ''[a]''" by code_simp
  have b: "''[a]'' \<noteq> []" by simp
  have c: "\<not> is_comment (hd ''[a]'')" by code_simp
  have d: "hd ''[a]'' = char_section_start" by code_simp
  have e: "last ''[a]'' = char_section_end" by code_simp
  have k: "key_value is_comment ''k=v'' = Some (''k'', ''v'')" by code_simp
  from section_header_sets_name [of "'' [a] ''" "''[a]''" is_comment "[]" empty_ini, OF a b c d e]
  obtain name where n: "''[a]'' = char_section_start # name @ [char_section_end]"
    and p: "parse_line is_comment '' [a] '' ([], empty_ini) = (name, empty_ini)"
    and q: "\<forall>raw' k v. key_value is_comment raw' = Some (k, v) \<longrightarrow>
              map_of (sections (snd (parse_line is_comment raw' (name, empty_ini)))) name \<noteq> None"
    by blast
  from n have "name = ''a''"
    by (simp add: char_section_start_def char_section_end_def)
  with p q k show ?thesis
    by blast
qed

text \<open>The header \<open>[a]\<close> alone: the name is set, the document has no section \<open>a\<close>.\<close>

theorem section_header_creates_no_entry:
  "parse_lines is_comment [''[a]''] ([], empty_ini) = (''a'', empty_ini) \<and>
   map_of (sections (parse is_comment ''[a]'' empty_ini)) ''a'' = None"
  by code_simp

text \<open>
  Claim C3. Two key-value lines with the same key, the second parsed while the current
  section is the one of the first (any lines may stand between them): after the first
  line the section has a value for the key, which is the first line's value when the key
  was new there; the second line leaves the current section and the document as they
  are and appends its trimmed text to the error log; and whatever is parsed afterwards,
  the section keeps that value and the log keeps that line.
\<close>

theorem duplicate_key_rejected:
  assumes "key_value isc raw1 = Some (k, v1)" and "key_value isc raw2 = Some (k, v2)"
    and "parse_lines isc between (parse_line isc raw1 (section, ini)) = (section, ini2)"
  shows "\<exists>w. value_of ini2 section k = Some w \<and>
           (value_of ini section k = None \<longrightarrow> w = v1) \<and>
           parse_line isc raw2 (section, ini2) =
             (section, ini2\<lparr>errors := errors ini2 @ [rtrim (ltrim raw2)]\<rparr>) \<and>
           (\<forall>rest. value_of (snd (parse_lines isc rest (parse_line isc raw2 (section, ini2)))) section k = Some w \<and>
                   rtrim (ltrim raw2) \<in> set (errors (snd (parse_lines isc rest (parse_line isc raw2 (section, ini2))))))"
proof -
  define st1 where "st1 = parse_line isc raw1 (section, ini)"
  have "\<exists>w. value_of (snd st1) section k = Some w \<and> (value_of ini section k = None \<longrightarrow> w = v1)"
  proof (cases "value_of ini section k")
    case None
    from parse_line_new_key [OF assms(1) None] show ?thesis
      by (auto simp: st1_def)
  next
    case (Some v0)
    then show ?thesis
      by (simp add: st1_def parse_line_old_key [OF assms(1) Some] value_of_errors_update)
  qed
  then obtain w where w: "value_of (snd st1) section k = Some w"
    and first: "value_of ini section k = None \<longrightarrow> w = v1"
    by auto
  from parse_lines_keeps [OF w, of isc between] assms(3)
  have w2: "value_of ini2 section k = Some w"
    by (simp add: st1_def)
  define st3 where "st3 = parse_line isc raw2 (section, ini2)"
  have step: "st3 = (section, ini2\<lparr>errors := errors ini2 @ [rtrim (ltrim raw2)]\<rparr>)"
    unfolding st3_def using assms(2) w2 by (rule parse_line_old_key)
  have "value_of (snd st3) section k = Some w"
    using w2 by (simp add: step value_of_errors_update)
  then have keep: "value_of (snd (parse_lines isc rest st3)) section k = Some w" for rest
    by (rule parse_lines_keeps)
  have log: "rtrim (ltrim raw2) \<in> set (errors (snd (parse_lines isc rest st3)))" for rest
    using parse_lines_errors [of isc rest st3] by (auto simp: step)
  show ?thesis
  proof (intro exI [of _ w] conjI allI)
    show "value_of ini2 section k = Some w"
      by (rule w2)
    show "value_of ini section k = None \<longrightarrow> w = v1"
      by (rule first)
    show "parse_line isc raw2 (section, ini2) =
            (section, ini2\<lparr>errors := errors ini2 @ [rtrim (ltrim raw2)]\<rparr>)"
      using step by (simp add: st3_def)
  next
    fix rest
    show "value_of (snd (parse_lines isc rest (parse_line isc raw2 (section, ini2)))) section k = Some w"
      using keep [of rest] by (simp add: st3_def)
    show "rtrim (ltrim raw2) \<in> set (errors (snd (parse_lines isc rest (parse_line isc raw2 (section, ini2)))))"
      using log [of rest] by (simp add: st3_def)
  qed
qed

theorem duplicate_key_rejected_witness:
  "parse_line is_comment '' a = 2 '' ([], \<lparr>sections = [([], [(''a'', ''1''), (''b'', ''3'')])], errors = []\<rparr>) =
     ([], \<lparr>sections = [([], [(''a'', ''1''), (''b'', ''3'')])], errors = [''a = 2'']\<rparr>) \<and>
   value_of \<lparr>sections = [([], [(''a'', ''1''), (''b'', ''3'')])], errors = []\<rparr> [] ''a'' = Some ''1''"
proof -
  have a: "key_value is_comment ''a=1'' = Some (''a'', ''1'')" by code_simp
  have b: "key_value is_comment '' a = 2 '' = Some (''a'', ''2'')" by code_simp
  have c: "parse_lines is_comment [''b=3''] (parse_line is_comment ''a=1'' ([], empty_ini)) =
             ([], \<lparr>sections = [([], [(''a'', ''1''), (''b'', ''3'')])], errors = []\<rparr>)" by code_simp
  have d: "value_of empty_ini [] ''a'' = None" by code_simp
  have e: "rtrim (ltrim '' a = 2 '') = ''a = 2''" by code_simp
  from duplicate_key_rejected [OF a b c] d e show ?thesis
    by auto
qed

section \<open>Facts about the default section\<close>

lemma map_of_foldl_map_insert:
  "map_of (foldl (\<lambda>m val. map_insert (fst val) (snd val) m) s sec) key =
   (case map_of s key of Some v \<Rightarrow> Some v | None \<Rightarrow> map_of sec key)"
proof (induction sec arbitrary: s)
  case Nil
  show ?case by (simp split: option.splits)
next
  case (Cons val sec)
  show ?case
    by (cases val) (simp add: Cons.IH map_of_map_insert split: option.splits)
qed

lemma map_of_default_sections:
  "map_of (map (\<lambda>sec2. (fst sec2, foldl (\<lambda>m val. map_insert (fst val) (snd val) m) (snd sec2) sec)) secs) name =
   map_option (\<lambda>s. foldl (\<lambda>m val. map_insert (fst val) (snd val) m) s sec) (map_of secs name)"
  by (induction secs) auto

text \<open>
  Claim C7. \<open>default_section\<close> keeps the section names (none is added, none removed,
  the order stays) and the error log; in every section of the document a key that was
  there keeps its value, and a key that was not there gets the value the given set has
  for it, if any.
\<close>

theorem default_section_fills_missing_keys:
  "map fst (sections (default_section sec ini)) = map fst (sections ini) \<and>
   errors (default_section sec ini) = errors ini \<and>
   (\<forall>name key. value_of (default_section sec ini) name key =
      (case map_of (sections ini) name of
         None \<Rightarrow> None
       | Some s \<Rightarrow> (case map_of s key of Some v \<Rightarrow> Some v | None \<Rightarrow> map_of sec key)))"
proof (intro conjI allI)
  show "map fst (sections (default_section sec ini)) = map fst (sections ini)"
    by (simp add: default_section_def comp_def)
  show "errors (default_section sec ini) = errors ini"
    by (simp add: default_section_def)
next
  fix name key
  show "value_of (default_section sec ini) name key =
      (case map_of (sections ini) name of
         None \<Rightarrow> None
       | Some s \<Rightarrow> (case map_of s key of Some v \<Rightarrow> Some v | None \<Rightarrow> map_of sec key))"
    by (cases "map_of (sections ini) name")
       (simp_all add: default_section_def value_of_def map_of_default_sections
          map_of_foldl_map_insert)
qed

theorem default_section_fills_missing_keys_witness:
  "default_section [(''x'', ''1'')]
     \<lparr>sections = [(''s'', [(''a'', ''0'')]), (''t'', [(''x'', ''7'')])], errors = []\<rparr> =
   \<lparr>sections = [(''s'', [(''a'', ''0''), (''x'', ''1'')]), (''t'', [(''x'', ''7'')])], errors = []\<rparr> \<and>
   value_of (default_section [(''x'', ''1'')]
     \<lparr>sections = [(''s'', [(''a'', ''0'')]), (''t'', [(''x'', ''7'')])], errors = []\<rparr>) ''t'' ''x'' = Some ''7''"
proof -
  have "default_section [(''x'', ''1'')]
     \<lparr>sections = [(''s'', [(''a'', ''0'')]), (''t'', [(''x'', ''7'')])], errors = []\<rparr> =
   \<lparr>sections = [(''s'', [(''a'', ''0''), (''x'', ''1'')]), (''t'', [(''x'', ''7'')])], errors = []\<rparr>"
    by code_simp
  moreover from default_section_fills_missing_keys [of "[(''x'', ''1'')]"
      "\<lparr>sections = [(''s'', [(''a'', ''0'')]), (''t'', [(''x'', ''7'')])], errors = []\<rparr>"]
  have "value_of (default_section [(''x'', ''1'')]
     \<lparr>sections = [(''s'', [(''a'', ''0'')]), (''t'', [(''x'', ''7'')])], errors = []\<rparr>) ''t'' ''x'' = Some ''7''"
    by simp
  ultimately show ?thesis by simp
qed

section \<open>Facts about typed extraction\<close>

lemma read_char_None: "read_char s = None \<longleftrightarrow> (\<forall>c \<in> set s. isspace c)"
proof (cases "dropWhile isspace s")
  case Nil
  have "read_char s = None"
    by (simp add: read_char_def Nil)
  moreover have "\<forall>c \<in> set s. isspace c"
    using Nil by simp
  ultimately show ?thesis by simp
next
  case (Cons c cs)
  have "read_char s \<noteq> None"
    by (simp add: read_char_def Cons)
  moreover have "\<not> (\<forall>c \<in> set s. isspace c)"
  proof
    assume "\<forall>c \<in> set s. isspace c"
    then have "dropWhile isspace s = []" by simp
    with Cons show False by simp
  qed
  ultimately show ?thesis by blast
qed

text \<open>
  Claim C8, as the code has it. \<open>extract\<close> returns \<open>true\<close> exactly when the formatted
  input of the target type succeeds and nothing but whitespace is left behind it; then the
  destination is the parsed result, and otherwise it returns \<open>false\<close> and the
  destination is unchanged. The overload for strings always returns \<open>true\<close> with the
  value itself.
\<close>

theorem extract_accepts_whole_value:
  "(fst (extract_as scan value dst) \<longleftrightarrow>
      (\<exists>result rest. scan value = Some (result, rest) \<and> (\<forall>c \<in> set rest. isspace c))) \<and>
   (\<forall>result rest. scan value = Some (result, rest) \<and> (\<forall>c \<in> set rest. isspace c) \<longrightarrow>
      extract_as scan value dst = (True, result)) \<and>
   (\<not> fst (extract_as scan value dst) \<longrightarrow> extract_as scan value dst = (False, dst)) \<and>
   extract_string value sdst = (True, value)"
proof (cases "scan value")
  case None
  then show ?thesis
    by (simp add: extract_as_def extract_string_def)
next
  case (Some r)
  obtain result rest where r: "r = (result, rest)"
    by (cases r)
  show ?thesis
    by (cases "\<forall>c \<in> set rest. isspace c")
       (simp_all add: Some r extract_as_def extract_string_def read_char_None)
qed

theorem extract_accepts_whole_value_witness:
  "extract_as scan_int ''42'' 0 = (True, 42) \<and> extract_as scan_int ''42x'' 0 = (False, 0) \<and>
   extract_string '' raw '' [] = (True, '' raw '')"
proof -
  have a: "scan_int ''42'' = Some (42, [])"
    by (simp add: scan_int_def isspace_def is_digit_def digit_val_def less_eq_char_def)
  have b: "scan_int ''42x'' = Some (42, ''x'')"
    by (simp add: scan_int_def isspace_def is_digit_def digit_val_def less_eq_char_def)
  have c: "\<not> isspace CHR ''x''"
    by (simp add: isspace_def)
  from extract_accepts_whole_value [of scan_int "''42''" 0] a
  have 1: "extract_as scan_int ''42'' 0 = (True, 42)"
    by simp
  from extract_accepts_whole_value [of scan_int "''42x''" 0] b c
  have 2: "extract_as scan_int ''42x'' 0 = (False, 0)"
    by simp
  from extract_accepts_whole_value [of scan_int "'' raw ''" 0 "[]"]
  have 3: "extract_string '' raw '' [] = (True, '' raw '')"
    by simp
  from 1 2 3 show ?thesis by simp
qed

text \<open>
  The value \<open>42\<close> followed by a space: reading the \<open>int\<close> leaves the space unread, and
  \<open>extract\<close> returns \<open>true\<close>; the same for a \<open>char\<close>.
\<close>

theorem extract_ignores_trailing_space:
  "scan_int ''42 '' = Some (42, '' '') \<and> extract_as scan_int ''42 '' 0 = (True, 42) \<and>
   read_char ''a '' = Some (CHR ''a'', '' '') \<and> extract_as read_char ''a '' CHR ''z'' = (True, CHR ''a'')"
  by (simp add: extract_as_def read_char_def scan_int_def isspace_def is_digit_def digit_val_def
        less_eq_char_def)

section \<open>Facts about interpolation\<close>

lemma local_symbol_not_empty: "local_symbol name \<noteq> []"
  by (simp add: local_symbol_def)

lemma global_symbol_not_empty: "global_symbol sec_name name \<noteq> []"
  by (simp add: global_symbol_def local_symbol_def)

lemma local_symbols_not_empty: "\<forall>symb \<in> set (local_symbols name sec). fst symb \<noteq> []"
  by (simp add: local_symbols_def local_symbol_not_empty)

lemma global_symbols_not_empty: "\<forall>symb \<in> set (global_symbols secs). fst symb \<noteq> []"
  by (auto simp: global_symbols_def global_symbol_not_empty)

text \<open>The result of \<open>replace_symbols\<close> for patterns that are not empty, entry by entry.\<close>

lemma replace_values_result:
  assumes "fst symb \<noteq> []"
  shows "\<exists>c. replace_values symb sec =
           Some (map (\<lambda>val. (fst val, fst (subst (fst symb) (snd symb) (snd val)))) sec, c)"
proof (induction sec)
  case Nil
  show ?case by auto
next
  case (Cons val sec)
  then obtain c where "replace_values symb sec =
      Some (map (\<lambda>val. (fst val, fst (subst (fst symb) (snd symb) (snd val)))) sec, c)"
    by auto
  with assms show ?case
    by (simp add: replace_subst case_prod_unfold)
qed

lemma replace_symbols_result:
  assumes "\<forall>symb \<in> set syms. fst symb \<noteq> []"
  shows "\<exists>c. replace_symbols syms sec =
           Some (map (\<lambda>val. (fst val, fold (\<lambda>symb v. fst (subst (fst symb) (snd symb) v)) syms (snd val))) sec, c)"
  using assms
proof (induction syms arbitrary: sec)
  case Nil
  show ?case by auto
next
  case (Cons symb syms)
  define sec1 where "sec1 = map (\<lambda>val. (fst val, fst (subst (fst symb) (snd symb) (snd val)))) sec"
  from Cons.prems obtain c1 where 1: "replace_values symb sec = Some (sec1, c1)"
    using replace_values_result [of symb sec] by (auto simp: sec1_def)
  from Cons obtain c2 where 2: "replace_symbols syms sec1 =
      Some (map (\<lambda>val. (fst val, fold (\<lambda>symb v. fst (subst (fst symb) (snd symb) v)) syms (snd val))) sec1, c2)"
    by fastforce
  show ?case
    by (simp add: 1 2) (simp add: sec1_def comp_def)
qed

lemma fold_local_symbols:
  "fold (\<lambda>symb v. fst (subst (fst symb) (snd symb) v)) (local_symbols name sec) v =
   localize_value name (map fst sec) v"
  by (simp add: local_symbols_def localize_value_def fold_map comp_def)

lemma localize_result:
  "localize secs =
   Some (map (\<lambda>sec. (fst sec, map (\<lambda>val. (fst val, localize_value (fst sec) (map fst (snd sec)) (snd val))) (snd sec))) secs)"
proof (induction secs)
  case Nil
  show ?case by auto
next
  case (Cons sec secs)
  obtain c where "replace_symbols (local_symbols (fst sec) (snd sec)) (snd sec) =
      Some (map (\<lambda>val. (fst val, localize_value (fst sec) (map fst (snd sec)) (snd val))) (snd sec), c)"
    using replace_symbols_result [OF local_symbols_not_empty, of "fst sec" "snd sec" "snd sec"]
    by (auto simp: fold_local_symbols)
  then show ?case
    by (simp add: Cons.IH)
qed

lemma localize_value_unchanged:
  "\<forall>k \<in> set keys. find_first (local_symbol k) v = None \<Longrightarrow> localize_value name keys v = v"
proof (induction keys)
  case Nil
  show ?case by (simp add: localize_value_def)
next
  case (Cons k keys)
  then have "find_first (local_symbol k) v = None"
    by simp
  then have "fst (subst (local_symbol k) (global_symbol name k) v) = v"
    by (simp add: subst.simps [of "local_symbol k"] local_symbol_not_empty)
  with Cons show ?case
    by (simp add: localize_value_def)
qed

text \<open>
  Claim C6. The first loop of \<open>interpolate\<close> always returns and is run once, before
  the \<open>do\<close> loop; it keeps the sections and their keys, and the new value of an entry is
  the old one rewritten for the keys of its own section only, key after key in key order,
  each time by \<open>detail::replace\<close> of \<open>${key}\<close> by \<open>${name:key}\<close> (every occurrence,
  from left to right) in what the keys before have left; so a value in which no
  \<open>${key}\<close> of its own section occurs stays as it is, whatever keys other sections have.
\<close>

theorem localize_rewrites_own_section_only:
  "localize secs =
     Some (map (\<lambda>sec. (fst sec, map (\<lambda>val. (fst val, localize_value (fst sec) (map fst (snd sec)) (snd val))) (snd sec))) secs) \<and>
   localize_value name [key] v = fst (subst (local_symbol key) (global_symbol name key) v) \<and>
   replace v (local_symbol key) (global_symbol name key) =
     Some (subst (local_symbol key) (global_symbol name key) v) \<and>
   ((\<forall>k \<in> set keys. find_first (local_symbol k) v = None) \<longrightarrow> localize_value name keys v = v) \<and>
   (\<forall>ini'. interpolate ini = Some ini' \<longrightarrow>
      (\<exists>secs1 n. localize (sections ini) = Some secs1 \<and> resolve_loop secs1 0 0 = Some (sections ini', n)))"
proof (intro conjI allI impI)
  show "localize secs =
     Some (map (\<lambda>sec. (fst sec, map (\<lambda>val. (fst val, localize_value (fst sec) (map fst (snd sec)) (snd val))) (snd sec))) secs)"
    by (rule localize_result)
  show "localize_value name [key] v = fst (subst (local_symbol key) (global_symbol name key) v)"
    by (simp add: localize_value_def)
  show "replace v (local_symbol key) (global_symbol name key) =
      Some (subst (local_symbol key) (global_symbol name key) v)"
    by (simp add: replace_subst local_symbol_not_empty)
  show "localize_value name keys v = v" if "\<forall>k \<in> set keys. find_first (local_symbol k) v = None"
    using that by (rule localize_value_unchanged)
next
  fix ini'
  assume "interpolate ini = Some ini'"
  then show "\<exists>secs1 n. localize (sections ini) = Some secs1 \<and> resolve_loop secs1 0 0 = Some (sections ini', n)"
    by (auto simp: interpolate_def interpolate_passes_def split: bind_splits)
qed

text \<open>
  The section \<open>s\<close> with \<open>a = 1\<close> and \<open>b = ${a}\<close>; and the bare reference \<open>${k}\<close> in
  section \<open>A\<close>, which has no key \<open>k\<close>, next to a section \<open>B\<close> that has one.
\<close>

theorem localize_rewrites_own_section_only_witness:
  "interpolate \<lparr>sections = [(''s'', [(''a'', ''1''), (''b'', ''${a}'')])], errors = []\<rparr> =
     Some \<lparr>sections = [(''s'', [(''a'', ''1''), (''b'', ''1'')])], errors = []\<rparr> \<and>
   localize [(''A'', [(''x'', ''${k}'')]), (''B'', [(''k'', ''v'')])] =
     Some [(''A'', [(''x'', ''${k}'')]), (''B'', [(''k'', ''v'')])] \<and>
   interpolate \<lparr>sections = [(''A'', [(''x'', ''${k}'')]), (''B'', [(''k'', ''v'')])], errors = []\<rparr> =
     Some \<lparr>sections = [(''A'', [(''x'', ''${k}'')]), (''B'', [(''k'', ''v'')])], errors = []\<rparr>"
proof -
  have 1: "interpolate \<lparr>sections = [(''s'', [(''a'', ''1''), (''b'', ''${a}'')])], errors = []\<rparr> =
     Some \<lparr>sections = [(''s'', [(''a'', ''1''), (''b'', ''1'')])], errors = []\<rparr>"
    by code_simp
  have 3: "interpolate \<lparr>sections = [(''A'', [(''x'', ''${k}'')]), (''B'', [(''k'', ''v'')])], errors = []\<rparr> =
     Some \<lparr>sections = [(''A'', [(''x'', ''${k}'')]), (''B'', [(''k'', ''v'')])], errors = []\<rparr>"
    by code_simp
  have a: "\<forall>k \<in> set [''x'']. find_first (local_symbol k) ''${k}'' = None"
    by (simp add: local_symbol_def char_interpol_def char_interpol_start_def char_interpol_end_def)
  have b: "\<forall>k \<in> set [''k'']. find_first (local_symbol k) ''v'' = None"
    by (simp add: local_symbol_def char_interpol_def char_interpol_start_def char_interpol_end_def)
  note A = localize_rewrites_own_section_only [of "[(''A'', [(''x'', ''${k}'')]), (''B'', [(''k'', ''v'')])]"
      "''A''" "''x''" "''${k}''" "[''x'']"]
  note B = localize_rewrites_own_section_only [of "[]" "''B''" "''k''" "''v''" "[''k'']"]
  from A a have u: "localize_value ''A'' [''x''] ''${k}'' = ''${k}''"
    by blast
  from B b have v: "localize_value ''B'' [''k''] ''v'' = ''v''"
    by blast
  have "localize [(''A'', [(''x'', ''${k}'')]), (''B'', [(''k'', ''v'')])] =
      Some [(''A'', [(''x'', ''${k}'')]), (''B'', [(''k'', ''v'')])]"
    unfolding A [THEN conjunct1] using u v by simp
  with 1 3 show ?thesis
    by simp
qed

text \<open>
  The symbol tables of \<open>interpolate\<close> have no empty pattern, so every pass returns; a
  pass that reports no replacement has changed nothing, and neither does the next.
\<close>

lemma replace_values_unchanged:
  assumes "fst symb \<noteq> []"
  shows "replace_values symb sec = Some (sec', False) \<Longrightarrow> sec' = sec"
proof (induction sec arbitrary: sec')
  case Nil
  then show ?case by simp
next
  case (Cons val sec)
  from Cons.prems assms obtain sec'' c2 where r: "replace_values symb sec = Some (sec'', c2)"
    and e: "sec' = (fst val, fst (subst (fst symb) (snd symb) (snd val))) # sec''"
    and f: "\<not> snd (subst (fst symb) (snd symb) (snd val))" "\<not> c2"
    by (auto simp: replace_subst case_prod_unfold split: bind_splits)
  from f r have "sec'' = sec"
    by (simp add: Cons.IH)
  moreover from assms f have "fst (subst (fst symb) (snd symb) (snd val)) = snd val"
    by (simp add: subst_unchanged)
  ultimately show ?case
    using e by simp
qed

lemma replace_symbols_unchanged:
  assumes "\<forall>symb \<in> set syms. fst symb \<noteq> []"
  shows "replace_symbols syms sec = Some (sec', False) \<Longrightarrow> sec' = sec"
  using assms
proof (induction syms arbitrary: sec)
  case Nil
  then show ?case by simp
next
  case (Cons symb syms)
  from Cons.prems obtain sec1 c1 where 1: "replace_values symb sec = Some (sec1, c1)"
    using replace_values_total [of symb sec] by auto
  from Cons.prems obtain sec2 c2 where 2: "replace_symbols syms sec1 = Some (sec2, c2)"
    using replace_symbols_total [of syms sec1] by auto
  from Cons.prems 1 2 have f: "sec2 = sec'" "\<not> c1" "\<not> c2"
    by simp_all
  from Cons.prems 1 f have "sec1 = sec"
    using replace_values_unchanged [of symb sec sec1] by simp
  with Cons 2 f show ?case
    by simp
qed

lemma replace_all_sections_unchanged:
  assumes "\<forall>symb \<in> set syms. fst symb \<noteq> []"
  shows "replace_all_sections syms secs = Some (secs', False) \<Longrightarrow> secs' = secs"
proof (induction secs arbitrary: secs')
  case Nil
  then show ?case by simp
next
  case (Cons sec secs)
  from assms obtain s c1 where 1: "replace_symbols syms (snd sec) = Some (s, c1)"
    using replace_symbols_total [of syms "snd sec"] by auto
  from Cons.prems 1 obtain secs'' c2 where 2: "replace_all_sections syms secs = Some (secs'', c2)"
    by (cases "replace_all_sections syms secs") auto
  from Cons.prems 1 2 have f: "secs' = (fst sec, s) # secs''" "\<not> c1" "\<not> c2"
    by simp_all
  from assms 1 f have "s = snd sec"
    by (simp add: replace_symbols_unchanged)
  moreover from 2 f have "secs'' = secs"
    by (simp add: Cons.IH)
  ultimately show ?case
    using f by simp
qed

lemma global_pass_stable:
  assumes "global_pass secs = Some (secs', False)"
  shows "secs' = secs \<and> global_pass secs' = Some (secs', False)"
proof -
  from assms have "secs' = secs"
    unfolding global_pass_def
    by (rule replace_all_sections_unchanged [OF global_symbols_not_empty])
  with assms show ?thesis by simp
qed

lemma replace_all_sections_total:
  assumes "\<forall>symb \<in> set syms. fst symb \<noteq> []"
  shows "\<exists>r. replace_all_sections syms secs = Some r"
proof (induction secs)
  case Nil
  show ?case by auto
next
  case (Cons sec secs)
  from assms obtain s c where "replace_symbols syms (snd sec) = Some (s, c)"
    using replace_symbols_total [of syms "snd sec"] by auto
  moreover from Cons obtain secs' c' where "replace_all_sections syms secs = Some (secs', c')"
    by auto
  ultimately show ?case
    by simp
qed

lemma global_pass_total: "\<exists>r. global_pass secs = Some r"
  unfolding global_pass_def
  by (rule replace_all_sections_total [OF global_symbols_not_empty])

text \<open>
  The \<open>do\<close> loop returns, after at most \<open>max_interpolation_depth + 1\<close> executions of its
  body: the test \<open>max_interpolation_depth > global_iteration++\<close> lets the body run again
  for the counter values 0 to 9.
\<close>

lemma resolve_loop_total: "\<exists>r. resolve_loop secs gi n = Some r"
proof (induction secs gi n rule: resolve_loop.induct)
  case (1 secs gi n)
  obtain secs' changed where p: "global_pass secs = Some (secs', changed)"
    using global_pass_total [of secs] by auto
  show ?case
  proof (cases "changed \<and> max_interpolation_depth > gi")
    case True
    with "1.IH" [OF p refl] p show ?thesis
      by (subst resolve_loop.simps) simp
  next
    case False
    with p show ?thesis
      by (subst resolve_loop.simps) auto
  qed
qed

lemma resolve_loop_passes:
  "resolve_loop secs gi n = Some (secs', m) \<Longrightarrow> m \<le> n + 1 + (max_interpolation_depth - gi)"
proof (induction secs gi n rule: resolve_loop.induct)
  case (1 secs gi n)
  obtain secs1 changed where p: "global_pass secs = Some (secs1, changed)"
    using global_pass_total [of secs] by auto
  show ?case
  proof (cases "changed \<and> max_interpolation_depth > gi")
    case True
    with "1.prems" p have "resolve_loop secs1 (gi + 1) (n + 1) = Some (secs', m)"
      by (subst (asm) resolve_loop.simps) simp
    with "1.IH" [OF p refl] True
    have "m \<le> n + 1 + 1 + (max_interpolation_depth - (gi + 1))"
      by simp
    with True show ?thesis
      by arith
  next
    case False
    with "1.prems" p show ?thesis
      by (subst (asm) resolve_loop.simps) auto
  qed
qed

lemma interpolate_returns: "\<exists>r. interpolate_passes ini = Some r"
proof -
  obtain secs where "localize (sections ini) = Some secs"
    by (simp add: localize_result)
  moreover obtain secs' n where "resolve_loop secs 0 0 = Some (secs', n)"
    using resolve_loop_total [of secs 0 0] by auto
  ultimately show ?thesis
    by (simp add: interpolate_passes_def)
qed

lemma interpolate_passes_at_most_eleven:
  "interpolate_passes ini = Some (ini', n) \<Longrightarrow> n \<le> 11"
  by (auto simp: interpolate_passes_def max_interpolation_depth_def
        split: bind_splits dest!: resolve_loop_passes)

text \<open>
  Claim C5, where the code departs from it. The text \<open>[s]\<close>, \<open>a=${a}\<close> gives a value
  that refers to itself: every pass replaces \<open>${s:a}\<close> by the value \<open>${s:a}\<close>, so
  every pass reports a replacement, and the body of the loop runs 11 times, one more than
  \<open>max_interpolation_depth\<close>.
\<close>

theorem interpolate_runs_eleven_passes:
  "interpolate_passes (parse is_comment (''[s]'' @ endl @ ''a=${a}'' @ endl) empty_ini) =
     Some (\<lparr>sections = [(''s'', [(''a'', ''${s:a}'')])], errors = []\<rparr>, 11) \<and>
   max_interpolation_depth = 10"
  by code_simp

section \<open>Facts about the key order\<close>

lemma map_wf_Nil: "map_wf []"
  by (simp add: map_wf_def)

lemma map_wf_single: "map_wf [e]"
  by (simp add: map_wf_def)

lemma map_wf_insort:
  "map_wf m \<Longrightarrow> map_of m k = None \<Longrightarrow> map_wf (insort_key fst (k, v) m)"
proof (induction m)
  case Nil
  show ?case by (simp add: map_wf_def)
next
  case (Cons e m)
  from Cons.prems have ne: "k \<noteq> fst e" and none: "map_of m k = None"
    by (cases e; auto split: if_splits)+
  from Cons.prems have wf: "map_wf m" and lt: "\<forall>x \<in> set m. fst e < fst x"
    by (auto simp: map_wf_def)
  show ?case
  proof (cases "k \<le> fst e")
    case True
    with ne have "k < fst e" by simp
    with lt have "\<forall>x \<in> set m. k < fst x" by auto
    with True \<open>k < fst e\<close> Cons.prems(1) show ?thesis
      by (simp add: map_wf_def)
  next
    case False
    then have "fst e < k" by simp
    with False lt Cons.IH [OF wf none] show ?thesis
      by (auto simp: map_wf_def set_insort_key)
  qed
qed

lemma map_wf_map_insert: "map_wf m \<Longrightarrow> map_wf (map_insert k v m)"
  by (simp add: map_insert_def map_wf_insort split: option.splits)

lemma map_wf_map_put: "map_wf m \<Longrightarrow> map_wf (map_put k v m)"
  by (simp add: map_wf_def map_fst_map_put)

lemma set_map_put: "set (map_put k v m) \<subseteq> insert (k, v) (set m)"
  by (induction m) (auto split: if_splits)

lemma map_put_insort:
  "map_of m k = None \<Longrightarrow> map_put k y (insort_key fst (k, x) m) = insort_key fst (k, y) m"
  by (induction m) (auto split: if_splits)

lemma map_wf_foldl_map_insert:
  "map_wf m \<Longrightarrow> map_wf (foldl (\<lambda>m val. map_insert (fst val) (snd val) m) m sec)"
  by (induction sec arbitrary: m) (simp_all add: map_wf_map_insert)

text \<open>The key-value branch of \<open>parse\<close>, by what the document holds.\<close>

lemma parse_line_store:
  assumes "key_value isc raw = Some (k, v)"
  shows "parse_line isc raw (section, ini) =
         (section,
          case map_of (sections ini) section of
            None \<Rightarrow> ini\<lparr>sections := insort_key fst (section, [(k, v)]) (sections ini)\<rparr>
          | Some sec \<Rightarrow>
              if map_of sec k = None
              then ini\<lparr>sections := map_put section (insort_key fst (k, v) sec) (sections ini)\<rparr>
              else ini\<lparr>errors := errors ini @ [rtrim (ltrim raw)]\<rparr>)"
proof (cases "map_of (sections ini) section")
  case None
  then show ?thesis
    by (simp add: parse_line_key_value [OF assms] Let_def map_insert_def map_of_insort_key
          map_put_insort)
next
  case (Some sec)
  then show ?thesis
    by (simp add: parse_line_key_value [OF assms] Let_def map_insert_def)
qed

lemma doc_wf_errors_update: "doc_wf (ini\<lparr>errors := e\<rparr>) = doc_wf ini"
  by (simp add: doc_wf_def)

lemma parse_line_doc_wf:
  assumes "doc_wf (snd st)"
  shows "doc_wf (snd (parse_line isc raw st))"
proof -
  obtain sect ini where st: "st = (sect, ini)"
    by (cases st)
  show ?thesis
  proof (cases rule: key_value_cases [where raw = raw and isc = isc])
    case blank
    with assms show ?thesis by (simp add: parse_line_blank)
  next
    case comment
    with assms show ?thesis by (simp add: parse_line_comment)
  next
    case header
    with assms show ?thesis
      unfolding st by (simp add: parse_line_header [OF refl] doc_wf_errors_update)
  next
    case no_assign
    with assms show ?thesis
      unfolding st by (simp add: parse_line_no_assign [OF refl] doc_wf_errors_update)
  next
    case (key_value k v)
    from assms st have wf: "map_wf (sections ini)" and each: "\<forall>sec \<in> set (sections ini). map_wf (snd sec)"
      by (simp_all add: doc_wf_def)
    show ?thesis
    proof (cases "map_of (sections ini) sect")
      case None
      with wf each show ?thesis
        unfolding st
        by (simp add: parse_line_store [OF key_value] doc_wf_def map_wf_insort set_insort_key
              map_wf_single)
    next
      case (Some sec)
      then have "(sect, sec) \<in> set (sections ini)"
        by (rule map_of_SomeD)
      with each have s: "map_wf sec"
        by auto
      show ?thesis
      proof (cases "map_of sec k")
        case None
        with s have "map_wf (insort_key fst (k, v) sec)"
          by (simp add: map_wf_insort)
        with each have "\<forall>e \<in> set (map_put sect (insort_key fst (k, v) sec) (sections ini)). map_wf (snd e)"
          using set_map_put [of sect "insort_key fst (k, v) sec" "sections ini"] by auto
        with wf Some None show ?thesis
          unfolding st by (simp add: parse_line_store [OF key_value] doc_wf_def map_wf_map_put)
      next
        case (Some v0)
        with \<open>map_of (sections ini) sect = Some sec\<close> assms st show ?thesis
          by (simp add: parse_line_store [OF key_value] doc_wf_errors_update)
      qed
    qed
  qed
qed

lemma parse_lines_doc_wf: "doc_wf (snd st) \<Longrightarrow> doc_wf (snd (parse_lines isc ls st))"
  by (induction ls arbitrary: st) (simp_all add: parse_lines_Nil parse_lines_Cons parse_line_doc_wf)

lemma default_section_doc_wf: "doc_wf ini \<Longrightarrow> doc_wf (default_section sec ini)"
  by (auto simp: doc_wf_def default_section_def map_wf_def comp_def
        map_wf_foldl_map_insert [unfolded map_wf_def])

text \<open>What \<open>generate\<close> writes: the lines of the sections in the order of the map, each with a newline.\<close>

lemma foldl_write_value:
  "foldl write_value os sec = os @ concat (map (\<lambda>val. (fst val @ [char_assign] @ snd val) @ endl) sec)"
  by (induction sec arbitrary: os) (simp_all add: write_value_def)

lemma write_section_lines:
  "write_section os sec = os @ concat (map (\<lambda>l. l @ endl) (section_lines sec))"
  by (simp add: write_section_def foldl_write_value section_lines_def comp_def)

lemma generate_lines:
  "generate ini os = os @ concat (map (\<lambda>l. l @ endl) (document_lines (sections ini)))"
proof -
  have "foldl write_section os secs = os @ concat (map (\<lambda>l. l @ endl) (document_lines secs))" for secs
    by (induction secs arbitrary: os) (simp_all add: document_lines_def write_section_lines)
  then show ?thesis
    by (simp add: generate_def)
qed

text \<open>Interpolation changes values only: section names and keys stay, in their order.\<close>

lemma same_keys_doc_wf:
  assumes "map (\<lambda>sec. (fst sec, map fst (snd sec))) (sections b) =
           map (\<lambda>sec. (fst sec, map fst (snd sec))) (sections a)"
    and "doc_wf a"
  shows "doc_wf b"
proof -
  from assms(1) have "map fst (map (\<lambda>sec. (fst sec, map fst (snd sec))) (sections b)) =
      map fst (map (\<lambda>sec. (fst sec, map fst (snd sec))) (sections a))"
    by simp
  then have names: "map fst (sections b) = map fst (sections a)"
    by (simp add: comp_def)
  from assms(1) have "map snd (map (\<lambda>sec. (fst sec, map fst (snd sec))) (sections b)) =
      map snd (map (\<lambda>sec. (fst sec, map fst (snd sec))) (sections a))"
    by simp
  then have "map (\<lambda>sec. map fst (snd sec)) (sections b) = map (\<lambda>sec. map fst (snd sec)) (sections a)"
    by (simp add: comp_def)
  then have "(\<forall>ks \<in> set (map (\<lambda>sec. map fst (snd sec)) (sections b)). sorted_wrt (<) ks) \<longleftrightarrow>
      (\<forall>ks \<in> set (map (\<lambda>sec. map fst (snd sec)) (sections a)). sorted_wrt (<) ks)"
    by (simp only:)
  then have "(\<forall>sec \<in> set (sections b). sorted_wrt (<) (map fst (snd sec))) \<longleftrightarrow>
      (\<forall>sec \<in> set (sections a). sorted_wrt (<) (map fst (snd sec)))"
    by simp
  with names assms(2) show ?thesis
    by (simp add: doc_wf_def map_wf_def)
qed

lemma replace_symbols_keys:
  assumes "\<forall>symb \<in> set syms. fst symb \<noteq> []" and "replace_symbols syms sec = Some (sec', c)"
  shows "map fst sec' = map fst sec"
  using replace_symbols_result [OF assms(1), of sec] assms(2) by (auto simp: comp_def)

lemma replace_all_sections_keys:
  assumes "\<forall>symb \<in> set syms. fst symb \<noteq> []"
  shows "replace_all_sections syms secs = Some (secs', c) \<Longrightarrow>
         map (\<lambda>sec. (fst sec, map fst (snd sec))) secs' = map (\<lambda>sec. (fst sec, map fst (snd sec))) secs"
proof (induction secs arbitrary: secs' c)
  case Nil
  then show ?case by simp
next
  case (Cons sec secs)
  from assms obtain s c1 where 1: "replace_symbols syms (snd sec) = Some (s, c1)"
    using replace_symbols_total [of syms "snd sec"] by auto
  from Cons.prems 1 obtain secs'' c2 where 2: "replace_all_sections syms secs = Some (secs'', c2)"
    by (cases "replace_all_sections syms secs") auto
  from Cons.prems 1 2 have e: "secs' = (fst sec, s) # secs''"
    by simp
  from assms 1 have "map fst s = map fst (snd sec)"
    by (rule replace_symbols_keys)
  with Cons.IH [OF 2] e show ?case
    by simp
qed

lemma resolve_loop_keys:
  "resolve_loop secs gi n = Some (secs', m) \<Longrightarrow>
   map (\<lambda>sec. (fst sec, map fst (snd sec))) secs' = map (\<lambda>sec. (fst sec, map fst (snd sec))) secs"
proof (induction secs gi n rule: resolve_loop.induct)
  case (1 secs gi n)
  obtain secs1 changed where p: "global_pass secs = Some (secs1, changed)"
    using global_pass_total [of secs] by auto
  then have k: "map (\<lambda>sec. (fst sec, map fst (snd sec))) secs1 = map (\<lambda>sec. (fst sec, map fst (snd sec))) secs"
    unfolding global_pass_def by (rule replace_all_sections_keys [OF global_symbols_not_empty])
  show ?case
  proof (cases "changed \<and> max_interpolation_depth > gi")
    case True
    with "1.prems" p have "resolve_loop secs1 (gi + 1) (n + 1) = Some (secs', m)"
      by (subst (asm) resolve_loop.simps) simp
    with "1.IH" [OF p refl] True k show ?thesis
      by simp
  next
    case False
    with "1.prems" p k show ?thesis
      by (subst (asm) resolve_loop.simps) auto
  qed
qed

lemma interpolate_doc_wf:
  assumes "interpolate ini = Some ini'" and "doc_wf ini"
  shows "doc_wf ini'"
proof -
  from assms(1) obtain secs1 n where l: "localize (sections ini) = Some secs1"
    and r: "resolve_loop secs1 0 0 = Some (sections ini', n)"
    by (auto simp: interpolate_def interpolate_passes_def split: bind_splits)
  from l have "map (\<lambda>sec. (fst sec, map fst (snd sec))) secs1 =
      map (\<lambda>sec. (fst sec, map fst (snd sec))) (sections ini)"
    by (auto simp: localize_result comp_def)
  with resolve_loop_keys [OF r]
  have "map (\<lambda>sec. (fst sec, map fst (snd sec))) (sections ini') =
      map (\<lambda>sec. (fst sec, map fst (snd sec))) (sections ini)"
    by simp
  then show ?thesis
    using assms(2) by (rule same_keys_doc_wf)
qed

text \<open>
  Claim C2, as the code has it. The two maps of a document are ordered by key: the
  sections ascend by name and the entries of each section ascend by key (strings compared
  character by character, by code). The empty document is so, and \<open>parse\<close>,
  \<open>default_section\<close> and \<open>interpolate\<close> keep it so, whatever the order in which
  sections and keys arrive. \<open>generate\<close> writes the sections in that ascending order, and
  the entries of each section in that ascending order: a header line, one line per entry,
  and an empty line.
\<close>

theorem sections_and_keys_in_key_order:
  assumes "doc_wf ini"
  shows "doc_wf empty_ini \<and> doc_wf (parse isc input ini) \<and> doc_wf (default_section sec ini) \<and>
         (\<forall>ini'. interpolate ini = Some ini' \<longrightarrow> doc_wf ini') \<and>
         sorted_wrt (<) (map fst (sections ini)) \<and>
         (\<forall>s \<in> set (sections ini). sorted_wrt (<) (map fst (snd s))) \<and>
         generate ini os = os @ concat (map (\<lambda>l. l @ endl) (document_lines (sections ini)))"
proof (intro conjI allI impI)
  show "doc_wf empty_ini"
    by (simp add: doc_wf_def empty_ini_def map_wf_def)
  show "doc_wf (parse isc input ini)"
    using assms by (simp add: parse_def parse_lines_doc_wf)
  show "doc_wf (default_section sec ini)"
    using assms by (rule default_section_doc_wf)
  show "doc_wf ini'" if "interpolate ini = Some ini'" for ini'
    using that assms by (rule interpolate_doc_wf)
  show "sorted_wrt (<) (map fst (sections ini))"
    using assms by (simp add: doc_wf_def map_wf_def)
  show "\<forall>s \<in> set (sections ini). sorted_wrt (<) (map fst (snd s))"
    using assms by (simp add: doc_wf_def map_wf_def)
  show "generate ini os = os @ concat (map (\<lambda>l. l @ endl) (document_lines (sections ini)))"
    by (rule generate_lines)
qed

theorem sections_and_keys_in_key_order_witness:
  "doc_wf (parse is_comment (''b=1'' @ endl @ ''a=2'' @ endl) empty_ini) \<and>
   parse is_comment (''b=1'' @ endl @ ''a=2'' @ endl) empty_ini =
     \<lparr>sections = [([], [(''a'', ''2''), (''b'', ''1'')])], errors = []\<rparr>"
proof -
  have e: "doc_wf empty_ini"
    by (simp add: doc_wf_def empty_ini_def map_wf_def)
  have p: "parse is_comment (''b=1'' @ endl @ ''a=2'' @ endl) empty_ini =
     \<lparr>sections = [([], [(''a'', ''2''), (''b'', ''1'')])], errors = []\<rparr>"
    by code_simp
  from sections_and_keys_in_key_order [OF e, of is_comment "''b=1'' @ endl @ ''a=2'' @ endl"]
  have "doc_wf (parse is_comment (''b=1'' @ endl @ ''a=2'' @ endl) empty_ini)"
    by blast
  with p show ?thesis
    by simp
qed

text \<open>
  Sections \<open>z\<close> then \<open>y\<close>, and in \<open>z\<close> the keys \<open>b\<close> then \<open>a\<close>: the text that
  \<open>generate\<close> writes has \<open>y\<close> before \<open>z\<close> and \<open>a\<close> before \<open>b\<close>.
\<close>

theorem generate_not_in_insertion_order:
  "generate (parse is_comment
      (''[z]'' @ endl @ ''b=1'' @ endl @ ''a=2'' @ endl @ ''[y]'' @ endl @ ''c=3'' @ endl) empty_ini) [] =
   ''[y]'' @ endl @ ''c=3'' @ endl @ endl @ ''[z]'' @ endl @ ''a=2'' @ endl @ ''b=1'' @ endl @ endl"
  by code_simp

section \<open>Facts about trimming and lines\<close>

lemma ltrim_id: "s = [] \<or> \<not> isspace (hd s) \<Longrightarrow> ltrim s = s"
  by (cases s) (auto simp: ltrim_def)

lemma rtrim_id: "s = [] \<or> \<not> isspace (last s) \<Longrightarrow> rtrim s = s"
proof -
  assume a: "s = [] \<or> \<not> isspace (last s)"
  then have "rev s = [] \<or> \<not> isspace (hd (rev s))"
    by (auto simp: hd_rev)
  then have "dropWhile isspace (rev s) = rev s"
    by (cases "rev s") auto
  then show ?thesis
    by (simp add: rtrim_def)
qed

lemma ltrim_hd: "ltrim s \<noteq> [] \<Longrightarrow> \<not> isspace (hd (ltrim s))"
  unfolding ltrim_def by (rule hd_dropWhile)

lemma rtrim_last: "rtrim s \<noteq> [] \<Longrightarrow> \<not> isspace (last (rtrim s))"
proof -
  assume "rtrim s \<noteq> []"
  then have "dropWhile isspace (rev s) \<noteq> []"
    by (simp add: rtrim_def)
  then have "\<not> isspace (hd (dropWhile isspace (rev s)))"
    by (rule hd_dropWhile)
  then show ?thesis
    by (simp add: rtrim_def last_rev)
qed

lemma ltrim_suffix: "\<exists>t. s = t @ ltrim s"
  unfolding ltrim_def by (metis takeWhile_dropWhile_id)

lemma rtrim_prefix: "\<exists>t. s = rtrim s @ t"
proof -
  have "s = rev (takeWhile isspace (rev s) @ dropWhile isspace (rev s))"
    by (simp only: takeWhile_dropWhile_id rev_rev_ident)
  also have "\<dots> = rev (dropWhile isspace (rev s)) @ rev (takeWhile isspace (rev s))"
    by (rule rev_append)
  finally have "s = rtrim s @ rev (takeWhile isspace (rev s))"
    by (simp only: rtrim_def)
  then show ?thesis ..
qed

lemma set_ltrim: "set (ltrim s) \<subseteq> set s"
  using ltrim_suffix [of s] by (metis Un_upper2 set_append)

lemma set_rtrim: "set (rtrim s) \<subseteq> set s"
  using rtrim_prefix [of s] by (metis Un_upper1 set_append)

lemma hd_rtrim: "rtrim s \<noteq> [] \<Longrightarrow> hd (rtrim s) = hd s"
  using rtrim_prefix [of s] by (metis hd_append2)

lemma last_ltrim: "ltrim s \<noteq> [] \<Longrightarrow> last (ltrim s) = last s"
  using ltrim_suffix [of s] by (metis last_appendR)

text \<open>The trimmed line of \<open>parse\<close>: its ends are no spaces, and it has no character that the raw line has not.\<close>

lemma trimmed_line:
  assumes "rtrim (ltrim raw) \<noteq> []"
  shows "\<not> isspace (hd (rtrim (ltrim raw)))" and "\<not> isspace (last (rtrim (ltrim raw)))"
    and "set (rtrim (ltrim raw)) \<subseteq> set raw"
proof -
  from assms have ne: "ltrim raw \<noteq> []"
    by (auto simp: rtrim_def)
  from assms have "hd (rtrim (ltrim raw)) = hd (ltrim raw)"
    by (rule hd_rtrim)
  with ne show "\<not> isspace (hd (rtrim (ltrim raw)))"
    by (simp add: ltrim_hd)
  from assms show "\<not> isspace (last (rtrim (ltrim raw)))"
    by (rule rtrim_last)
  show "set (rtrim (ltrim raw)) \<subseteq> set raw"
    using set_rtrim [of "ltrim raw"] set_ltrim [of raw] by blast
qed

lemma find_first_of_append:
  "ch \<notin> set k \<Longrightarrow> find_first_of (k @ ch # v) ch = Some (length k)"
  by (induction k) auto

lemma find_first_of_Some:
  "find_first_of s ch = Some p \<Longrightarrow> p < length s \<and> s ! p = ch \<and> ch \<notin> set (take p s)"
proof (induction s arbitrary: p)
  case Nil
  then show ?case by simp
next
  case (Cons c s)
  show ?case
  proof (cases "c = ch")
    case True
    with Cons.prems show ?thesis by simp
  next
    case False
    with Cons.prems obtain q where q: "find_first_of s ch = Some q" and p: "p = Suc q"
      by auto
    from Cons.IH [OF q] False p show ?thesis
      by simp
  qed
qed

text \<open>\<open>std::getline\<close> gives lines without a newline, and gives back lines written with \<open>std::endl\<close>.\<close>

lemma getlines_from_no_newline:
  "CHR 0x0A \<notin> set line \<Longrightarrow> \<forall>l \<in> set (getlines_from line input). CHR 0x0A \<notin> set l"
proof (induction input arbitrary: line)
  case Nil
  then show ?case by simp
next
  case (Cons c cs)
  show ?case
  proof (cases "c = CHR 0x0A")
    case True
    with Cons.prems Cons.IH [of "[]"] show ?thesis
      by simp
  next
    case False
    with Cons.prems Cons.IH [of "line @ [c]"] show ?thesis
      by simp
  qed
qed

lemma getlines_no_newline: "\<forall>l \<in> set (getlines input). CHR 0x0A \<notin> set l"
  unfolding getlines_def by (rule getlines_from_no_newline) simp

lemma getlines_from_line:
  "CHR 0x0A \<notin> set l \<Longrightarrow> getlines_from line (l @ endl @ rest) = (line @ l) # getlines_from [] rest"
  by (induction l arbitrary: line) (auto simp: endl_def)

lemma getlines_written:
  "\<forall>l \<in> set ls. CHR 0x0A \<notin> set l \<Longrightarrow> getlines (concat (map (\<lambda>l. l @ endl) ls)) = ls"
proof (induction ls)
  case Nil
  show ?case by (simp add: getlines_def)
next
  case (Cons l ls)
  then have "getlines_from [] (l @ endl @ concat (map (\<lambda>l. l @ endl) ls)) =
             ([] @ l) # getlines_from [] (concat (map (\<lambda>l. l @ endl) ls))"
    by (intro getlines_from_line) simp
  with Cons show ?case
    by (simp add: getlines_def)
qed

section \<open>Facts about what parse stores\<close>

lemma not_isspace_marks:
  "\<not> isspace char_assign" "\<not> isspace char_section_start" "\<not> isspace char_section_end"
  "char_assign \<noteq> CHR 0x0A" "char_section_start \<noteq> CHR 0x0A" "char_section_end \<noteq> CHR 0x0A"
  by (simp_all add: isspace_def char_assign_def char_section_start_def char_section_end_def)

text \<open>The entry that the key-value branch takes from a line without newline.\<close>

lemma key_value_parsed_entry:
  assumes "key_value isc raw = Some (k, v)" and "CHR 0x0A \<notin> set raw"
  shows "parsed_entry isc (k, v)"
proof -
  define line where "line = rtrim (ltrim raw)"
  from assms(1) obtain p where ne: "line \<noteq> []" and nc: "\<not> isc (hd line)"
    and nh: "hd line \<noteq> char_section_start"
    and pos: "find_first_of line char_assign = Some p" and p0: "p \<noteq> 0"
    and k: "k = rtrim (substr line 0 p)"
    and v: "v = ltrim (substr line (p + 1) (length line))"
    unfolding line_def by (rule key_value_SomeD)
  from ne have ends: "\<not> isspace (hd line)" "\<not> isspace (last line)" and sub: "set line \<subseteq> set raw"
    unfolding line_def by (rule trimmed_line)+
  from find_first_of_Some [OF pos] have pl: "p < length line" and na: "char_assign \<notin> set (take p line)"
    by simp_all
  have k': "k = rtrim (take p line)"
    by (simp add: k substr_def)
  have v': "v = ltrim (drop (p + 1) line)"
    by (simp add: v substr_def)
  from p0 ne have tne: "take p line \<noteq> []" and thd: "hd (take p line) = hd line"
    by (cases line; cases p; simp)+
  from tne thd ends(1) have "\<exists>c \<in> set (rev (take p line)). \<not> isspace c"
    by (metis hd_in_set set_rev)
  then have kne: "k \<noteq> []"
    by (simp add: k' rtrim_def dropWhile_eq_Nil_conv)
  then have khd: "hd k = hd line"
    using hd_rtrim [of "take p line"] thd by (simp add: k')
  from kne have klast: "\<not> isspace (last k)"
    unfolding k' by (rule rtrim_last)
  have ksub: "set k \<subseteq> set (take p line)"
    unfolding k' by (rule set_rtrim)
  have "set (take p line) \<subseteq> set line"
    by (rule set_take_subset)
  with ksub sub assms(2) have knl: "CHR 0x0A \<notin> set k"
    by blast
  have "set v \<subseteq> set (drop (p + 1) line)"
    unfolding v' by (rule set_ltrim)
  moreover have "set (drop (p + 1) line) \<subseteq> set line"
    by (rule set_drop_subset)
  ultimately have vnl: "CHR 0x0A \<notin> set v"
    using sub assms(2) by blast
  have vends: "v = [] \<or> (\<not> isspace (hd v) \<and> \<not> isspace (last v))"
  proof (cases "v = []")
    case True
    then show ?thesis by simp
  next
    case False
    then have "\<not> isspace (hd v)"
      unfolding v' by (rule ltrim_hd)
    moreover from False have "last v = last (drop (p + 1) line)"
      unfolding v' by (rule last_ltrim)
    moreover from False have "drop (p + 1) line \<noteq> []"
      by (auto simp: v' ltrim_def)
    then have "last (drop (p + 1) line) = last line"
      by (simp add: last_drop)
    ultimately show ?thesis
      using ends(2) by simp
  qed
  from kne khd ends(1) klast nc nh na ksub knl vnl vends show ?thesis
    by (auto simp: parsed_entry_def)
qed

text \<open>The line that \<open>generate\<close> writes for such an entry is read back as that entry.\<close>

lemma key_value_written:
  assumes "parsed_entry isc val"
  shows "key_value isc (fst val @ [char_assign] @ snd val) = Some val"
proof -
  define k v where "k = fst val" and "v = snd val"
  define line where "line = k @ [char_assign] @ v"
  from assms have kne: "k \<noteq> []" and khd: "\<not> isspace (hd k)" and klast: "\<not> isspace (last k)"
    and nc: "\<not> isc (hd k)" and nh: "hd k \<noteq> char_section_start" and na: "char_assign \<notin> set k"
    and vends: "v = [] \<or> (\<not> isspace (hd v) \<and> \<not> isspace (last v))"
    by (simp_all add: parsed_entry_def k_def v_def)
  from kne have lhd: "hd line = hd k" and lne: "line \<noteq> []"
    by (simp_all add: line_def)
  from vends have llast: "\<not> isspace (last line)"
    by (auto simp: line_def not_isspace_marks)
  from lhd khd have "ltrim line = line"
    by (simp add: ltrim_id)
  moreover from llast have "rtrim line = line"
    by (simp add: rtrim_id)
  ultimately have trim: "rtrim (ltrim line) = line"
    by simp
  from na have pos: "find_first_of line char_assign = Some (length k)"
    by (simp add: line_def find_first_of_append)
  have "substr line 0 (length k) = k"
    by (simp add: substr_def line_def)
  with klast have key: "rtrim (substr line 0 (length k)) = k"
    by (simp add: rtrim_id)
  have "substr line (length k + 1) (length line) = v"
    by (simp add: substr_def line_def)
  with vends have val: "ltrim (substr line (length k + 1) (length line)) = v"
    by (auto simp: ltrim_id)
  from trim lne lhd nc nh pos kne key val have "key_value isc line = Some (k, v)"
    by (simp add: key_value_def Let_def)
  then show ?thesis
    by (simp add: line_def k_def v_def)
qed

lemma parse_line_header_written:
  assumes "\<not> isc char_section_start"
  shows "parse_line isc ([char_section_start] @ name @ [char_section_end]) (s, ini) = (name, ini)"
proof -
  define line where "line = [char_section_start] @ name @ [char_section_end]"
  have "ltrim line = line"
    by (simp add: ltrim_id line_def not_isspace_marks)
  moreover have "rtrim line = line"
    by (simp add: rtrim_id line_def not_isspace_marks)
  ultimately have trim: "rtrim (ltrim line) = line"
    by simp
  have "substr line 1 (length line - 2) = name"
    by (simp add: substr_def line_def)
  moreover have "last line = char_section_end" "hd line = char_section_start" "line \<noteq> []"
    by (simp_all add: line_def)
  ultimately show ?thesis
    using assms parse_line_header [OF trim, of isc s ini] by (simp add: line_def)
qed

lemma parsed_doc_errors_update: "parsed_doc isc (ini\<lparr>errors := e\<rparr>) = parsed_doc isc ini"
  by (simp add: parsed_doc_def doc_wf_def)

text \<open>Every line without newline keeps the document as \<open>parsed_doc\<close> says, and the section name without newline.\<close>

lemma parse_line_parsed_doc:
  assumes "CHR 0x0A \<notin> set raw" and "CHR 0x0A \<notin> set (fst st)" and "parsed_doc isc (snd st)"
  shows "CHR 0x0A \<notin> set (fst (parse_line isc raw st)) \<and> parsed_doc isc (snd (parse_line isc raw st))"
proof -
  obtain sect ini where st: "st = (sect, ini)"
    by (cases st)
  define line where "line = rtrim (ltrim raw)"
  show ?thesis
  proof (cases rule: key_value_cases [where raw = raw and isc = isc])
    case blank
    with assms show ?thesis by (simp add: parse_line_blank)
  next
    case comment
    with assms show ?thesis by (simp add: parse_line_comment)
  next
    case header
    from header(1) have "set (rtrim (ltrim raw)) \<subseteq> set raw"
      by (rule trimmed_line)
    moreover have "set (substr (rtrim (ltrim raw)) 1 (length (rtrim (ltrim raw)) - 2)) \<subseteq> set (rtrim (ltrim raw))"
      unfolding substr_def by (meson set_take_subset set_drop_subset subset_trans)
    ultimately have "CHR 0x0A \<notin> set (substr (rtrim (ltrim raw)) 1 (length (rtrim (ltrim raw)) - 2))"
      using assms(1) by blast
    with header assms show ?thesis
      unfolding st by (simp add: parse_line_header [OF refl] parsed_doc_errors_update)
  next
    case no_assign
    with assms show ?thesis
      unfolding st by (simp add: parse_line_no_assign [OF refl] parsed_doc_errors_update)
  next
    case (key_value k v)
    from key_value assms(1) have entry: "parsed_entry isc (k, v)"
      by (rule key_value_parsed_entry)
    from assms(3) have wf: "doc_wf (snd (parse_line isc raw st))"
      by (simp add: parsed_doc_def parse_line_doc_wf)
    from assms st have nl: "CHR 0x0A \<notin> set sect"
      and each: "\<forall>sec \<in> set (sections ini). CHR 0x0A \<notin> set (fst sec) \<and> snd sec \<noteq> [] \<and>
                   (\<forall>val \<in> set (snd sec). parsed_entry isc val)"
      by (simp_all add: parsed_doc_def list_all_iff)
    have fst: "fst (parse_line isc raw st) = sect"
      by (simp add: st parse_line_store [OF key_value])
    have "\<forall>sec \<in> set (sections (snd (parse_line isc raw st))).
            CHR 0x0A \<notin> set (fst sec) \<and> snd sec \<noteq> [] \<and> (\<forall>val \<in> set (snd sec). parsed_entry isc val)"
    proof (cases "map_of (sections ini) sect")
      case None
      with each nl entry show ?thesis
        by (simp add: st parse_line_store [OF key_value] set_insort_key)
    next
      case (Some sec)
      then have "(sect, sec) \<in> set (sections ini)"
        by (rule map_of_SomeD)
      with each have s: "\<forall>val \<in> set sec. parsed_entry isc val"
        by auto
      show ?thesis
      proof (cases "map_of sec k")
        case None
        from s entry nl have new: "CHR 0x0A \<notin> set sect \<and> insort_key fst (k, v) sec \<noteq> [] \<and>
            (\<forall>val \<in> set (insort_key fst (k, v) sec). parsed_entry isc val)"
          by (auto simp: set_insort_key dest: arg_cong [where f = set])
        with each have "\<forall>e \<in> set (map_put sect (insort_key fst (k, v) sec) (sections ini)).
            CHR 0x0A \<notin> set (fst e) \<and> snd e \<noteq> [] \<and> (\<forall>val \<in> set (snd e). parsed_entry isc val)"
          using set_map_put [of sect "insort_key fst (k, v) sec" "sections ini"] by auto
        with Some None show ?thesis
          by (simp add: st parse_line_store [OF key_value])
      next
        case (Some v0)
        with \<open>map_of (sections ini) sect = Some sec\<close> each show ?thesis
          by (simp add: st parse_line_store [OF key_value])
      qed
    qed
    with wf fst nl show ?thesis
      by (simp add: parsed_doc_def list_all_iff)
  qed
qed

lemma parse_lines_parsed_doc:
  assumes "\<forall>raw \<in> set ls. CHR 0x0A \<notin> set raw"
  shows "CHR 0x0A \<notin> set (fst st) \<Longrightarrow> parsed_doc isc (snd st) \<Longrightarrow>
         parsed_doc isc (snd (parse_lines isc ls st))"
  using assms
proof (induction ls arbitrary: st)
  case Nil
  then show ?case by (simp add: parse_lines_Nil)
next
  case (Cons raw ls)
  from Cons.prems have "CHR 0x0A \<notin> set (fst (parse_line isc raw st)) \<and>
      parsed_doc isc (snd (parse_line isc raw st))"
    by (intro parse_line_parsed_doc) simp_all
  with Cons show ?case
    by (simp add: parse_lines_Cons)
qed

lemma parsed_doc_empty: "parsed_doc isc empty_ini"
  by (simp add: parsed_doc_def doc_wf_def map_wf_def empty_ini_def)

lemma parse_parsed_doc: "parsed_doc isc (parse isc input empty_ini)"
  unfolding parse_def
  by (rule parse_lines_parsed_doc) (simp_all add: getlines_no_newline parsed_doc_empty)

section \<open>Facts about parsing what generate writes\<close>

lemma insort_key_end: "\<forall>x \<in> set m. fst x < k \<Longrightarrow> insort_key fst (k, v) m = m @ [(k, v)]"
  by (induction m) auto

lemma map_of_end: "\<forall>x \<in> set m. fst x < (k :: 'k :: linorder) \<Longrightarrow> map_of m k = None"
  by (induction m) auto

lemma map_of_append_end:
  "\<forall>x \<in> set m. fst x < (k :: 'k :: linorder) \<Longrightarrow> map_of (m @ [(k, y)]) k = Some y"
  by (induction m) auto

lemma map_put_end:
  "\<forall>x \<in> set m. fst x < (k :: 'k :: linorder) \<Longrightarrow> map_put k y' (m @ [(k, y)]) = m @ [(k, y')]"
  by (induction m) auto

lemma map_wf_append_less:
  "map_wf (pre @ e # post) \<Longrightarrow> \<forall>x \<in> set pre. fst x < fst e"
  by (auto simp: map_wf_def sorted_wrt_append)

text \<open>
  The entry lines of one section, read under its header: the entries \<open>pre\<close> are stored
  already, the entries \<open>post\<close> are still to come, all in key order.
\<close>

lemma parse_entry_lines:
  assumes "\<forall>x \<in> set secs. fst x < name"
  shows "list_all (parsed_entry isc) post \<Longrightarrow> map_wf (pre @ post) \<Longrightarrow>
         parse_lines isc (map (\<lambda>val. fst val @ [char_assign] @ snd val) post)
           (name, \<lparr>sections = (if pre = [] then secs else secs @ [(name, pre)]), errors = e\<rparr>) =
         (name, \<lparr>sections = (if pre @ post = [] then secs else secs @ [(name, pre @ post)]), errors = e\<rparr>)"
proof (induction post arbitrary: pre)
  case Nil
  show ?case by (simp add: parse_lines_Nil)
next
  case (Cons val post)
  obtain k v where val: "val = (k, v)"
    by (cases val)
  define line where "line = fst val @ [char_assign] @ snd val"
  from Cons.prems have "parsed_entry isc val"
    by simp
  then have "key_value isc line = Some val"
    unfolding line_def by (rule key_value_written)
  then have kv: "key_value isc line = Some (k, v)"
    by (simp add: val)
  from Cons.prems(2) have less: "\<forall>x \<in> set pre. fst x < k"
    using map_wf_append_less [of pre val post] by (simp add: val)
  have step: "parse_line isc line
      (name, \<lparr>sections = (if pre = [] then secs else secs @ [(name, pre)]), errors = e\<rparr>) =
      (name, \<lparr>sections = secs @ [(name, pre @ [val])], errors = e\<rparr>)"
  proof (cases "pre = []")
    case True
    with assms show ?thesis
      by (simp add: parse_line_store [OF kv] map_of_end insort_key_end val)
  next
    case False
    have look: "map_of (secs @ [(name, pre)]) name = Some pre"
      using assms by (rule map_of_append_end)
    have none: "map_of pre k = None"
      using less by (rule map_of_end)
    have ins: "insort_key fst (k, v) pre = pre @ [(k, v)]"
      using less by (rule insort_key_end)
    have put: "map_put name (pre @ [(k, v)]) (secs @ [(name, pre)]) = secs @ [(name, pre @ [(k, v)])]"
      using assms by (rule map_put_end)
    from False show ?thesis
      by (simp add: parse_line_store [OF kv] look none ins put val del: map_of_append)
  qed
  from Cons.prems have "parse_lines isc (map (\<lambda>val. fst val @ [char_assign] @ snd val) post)
      (name, \<lparr>sections = (if pre @ [val] = [] then secs else secs @ [(name, pre @ [val])]), errors = e\<rparr>) =
      (name, \<lparr>sections = (if (pre @ [val]) @ post = [] then secs else secs @ [(name, (pre @ [val]) @ post)]), errors = e\<rparr>)"
    by (intro Cons.IH) simp_all
  moreover have "map (\<lambda>val. fst val @ [char_assign] @ snd val) (val # post) =
      line # map (\<lambda>val. fst val @ [char_assign] @ snd val) post"
    by (simp add: line_def)
  ultimately show ?case
    using step by (simp only: parse_lines_Cons) simp
qed

text \<open>The lines of one section, read into a document whose section names are all smaller.\<close>

lemma parse_section_lines:
  assumes "\<not> isc char_section_start" and "\<forall>x \<in> set secs. fst x < fst sec"
    and "snd sec \<noteq> []" and "map_wf (snd sec)" and "list_all (parsed_entry isc) (snd sec)"
  shows "parse_lines isc (section_lines sec) (s, \<lparr>sections = secs, errors = e\<rparr>) =
         (fst sec, \<lparr>sections = secs @ [sec], errors = e\<rparr>)"
proof -
  have header: "parse_line isc ([char_section_start] @ fst sec @ [char_section_end])
      (s, \<lparr>sections = secs, errors = e\<rparr>) = (fst sec, \<lparr>sections = secs, errors = e\<rparr>)"
    using assms(1) by (rule parse_line_header_written)
  have entries: "parse_lines isc (map (\<lambda>val. fst val @ [char_assign] @ snd val) (snd sec))
      (fst sec, \<lparr>sections = secs, errors = e\<rparr>) = (fst sec, \<lparr>sections = secs @ [sec], errors = e\<rparr>)"
    using parse_entry_lines [OF assms(2), of isc "snd sec" "[]" e] assms(3-5) by simp
  have blank: "parse_line isc [] st = st" for st
    by (simp add: parse_line_blank ltrim_def rtrim_def)
  show ?thesis
    by (simp add: section_lines_def parse_lines_Cons parse_lines_append header entries
          parse_lines_Nil blank del: append.simps)
qed

lemma parse_document_lines:
  assumes "\<not> isc char_section_start"
  shows "map_wf (pre @ post) \<Longrightarrow>
         list_all (\<lambda>sec. snd sec \<noteq> [] \<and> map_wf (snd sec) \<and> list_all (parsed_entry isc) (snd sec)) post \<Longrightarrow>
         snd (parse_lines isc (document_lines post) (s, \<lparr>sections = pre, errors = e\<rparr>)) =
         \<lparr>sections = pre @ post, errors = e\<rparr>"
proof (induction post arbitrary: pre s)
  case Nil
  show ?case by (simp add: document_lines_def parse_lines_Nil)
next
  case (Cons sec post)
  from Cons.prems(1) have "\<forall>x \<in> set pre. fst x < fst sec"
    by (rule map_wf_append_less)
  with assms Cons.prems(2)
  have one: "parse_lines isc (section_lines sec) (s, \<lparr>sections = pre, errors = e\<rparr>) =
      (fst sec, \<lparr>sections = pre @ [sec], errors = e\<rparr>)"
    by (intro parse_section_lines) simp_all
  from Cons.prems have "snd (parse_lines isc (document_lines post)
      (fst sec, \<lparr>sections = pre @ [sec], errors = e\<rparr>)) = \<lparr>sections = (pre @ [sec]) @ post, errors = e\<rparr>"
    by (intro Cons.IH) simp_all
  with one show ?case
    by (simp add: document_lines_def parse_lines_append)
qed

lemma document_lines_no_newline:
  assumes "parsed_doc isc ini"
  shows "\<forall>l \<in> set (document_lines (sections ini)). CHR 0x0A \<notin> set l"
  using assms
  by (auto simp: document_lines_def section_lines_def parsed_doc_def list_all_iff parsed_entry_def
        char_assign_def char_section_start_def char_section_end_def)

text \<open>A document as \<open>parse\<close> builds it is read back from its own serialization.\<close>

lemma parse_generate:
  assumes "\<not> isc char_section_start" and "parsed_doc isc ini"
  shows "parse isc (generate ini []) empty_ini = \<lparr>sections = sections ini, errors = []\<rparr>"
proof -
  have "getlines (generate ini []) = document_lines (sections ini)"
    using document_lines_no_newline [OF assms(2)] by (simp add: generate_lines getlines_written)
  moreover from assms(2) have "snd (parse_lines isc (document_lines (sections ini))
      ([], \<lparr>sections = [], errors = []\<rparr>)) = \<lparr>sections = [] @ sections ini, errors = []\<rparr>"
    using assms(1)
    by (intro parse_document_lines [where isc = isc])
       (auto simp: parsed_doc_def doc_wf_def list_all_iff)
  ultimately show ?thesis
    by (simp add: parse_def empty_ini_def)
qed

text \<open>
  Claim C9. Parse a text into the empty document, serialize, and parse the result into
  the empty document: the sections are those of the first parse (and the second parse
  logs no error). This holds for every input text; the claim's condition on keys and
  values is not needed, since what \<open>parse\<close> stores is trimmed, a key has no \<open>=\<close>, and
  \<open>[\<close>, \<open>]\<close> or \<open>=\<close> inside a value do not change how its line is read.
\<close>

theorem parse_generate_parse:
  "sections (parse is_comment (generate (parse is_comment input empty_ini) []) empty_ini) =
     sections (parse is_comment input empty_ini) \<and>
   errors (parse is_comment (generate (parse is_comment input empty_ini) []) empty_ini) = []"
proof -
  have "\<not> is_comment char_section_start"
    by (simp add: is_comment_def char_comment_def char_section_start_def)
  moreover have "parsed_doc is_comment (parse is_comment input empty_ini)"
    by (rule parse_parsed_doc)
  ultimately have "parse is_comment (generate (parse is_comment input empty_ini) []) empty_ini =
      \<lparr>sections = sections (parse is_comment input empty_ini), errors = []\<rparr>"
    by (rule parse_generate)
  then show ?thesis
    by simp
qed

end
